theory Spec2Isabelle
  imports Main "HOL-Library.Multiset" "HOL-Library.Word"
begin

section \<open>Error handling: \<open>divide\<close> (main.go, lines 58-69)\<close>

text \<open>
  A \<open>float64\<close> is its IEEE 754 binary64 bit pattern: bit 63 is the sign, bits 52..62 the
  biased exponent and bits 0..51 the fraction.  Go's \<open>==\<close> on floats is the IEEE
  comparison: a NaN equals nothing, the two zeros equal each other, and any other two
  values are equal when their bit patterns are.  The quotient \<open>a / b\<close> itself is a total
  operation of the hardware (it yields an infinity or a NaN where the reals have no
  quotient and never traps), so it is a parameter \<open>fdiv\<close> of the model.
\<close>

type_synonym float64 = "64 word"

definition f64_exponent :: "float64 \<Rightarrow> nat" where
  "f64_exponent x = unat (drop_bit 52 x) mod 2048"

definition f64_fraction :: "float64 \<Rightarrow> nat" where
  "f64_fraction x = unat x mod 2 ^ 52"

definition f64_is_nan :: "float64 \<Rightarrow> bool" where
  "f64_is_nan x = (f64_exponent x = 2047 \<and> f64_fraction x \<noteq> 0)"

definition f64_is_zero :: "float64 \<Rightarrow> bool" where
  "f64_is_zero x = (f64_exponent x = 0 \<and> f64_fraction x = 0)"

definition f64_eq :: "float64 \<Rightarrow> float64 \<Rightarrow> bool" where
  "f64_eq x y = (\<not> f64_is_nan x \<and> \<not> f64_is_nan y \<and> (x = y \<or> (f64_is_zero x \<and> f64_is_zero y)))"

text \<open>The Go \<open>error\<close> result: \<open>None\<close> is \<open>nil\<close>, \<open>Some msg\<close> the error made by \<open>fmt.Errorf\<close>.\<close>

type_synonym go_error = "string option"

text \<open>
  \<^verbatim>\<open>
  func divide(a, b float64) (float64, error) {
      if b == 0 {
          return 0, fmt.Errorf("division by zero")
      }
      return a / b, nil
  }
  \<close>
\<close>

definition divide :: "(float64 \<Rightarrow> float64 \<Rightarrow> float64) \<Rightarrow> float64 \<Rightarrow> float64 \<Rightarrow> float64 \<times> go_error" where
  "divide fdiv a b =
     (if f64_eq b 0 then (0, Some ''division by zero'')
      else (fdiv a b, None))"

section \<open>The worker pool (main.go, lines 96-119 and 421-475)\<close>

subsection \<open>Go integers and channels\<close>

text \<open>
  Go's \<open>int\<close> is a 64-bit two's complement integer on the platforms the repository
  targets; \<open>go_int\<close> wraps a mathematical integer into its range, as \<open>job * 2\<close> does.
\<close>

definition go_int :: "int \<Rightarrow> int" where
  "go_int x = (x + 2 ^ 63) mod 2 ^ 64 - 2 ^ 63"

text \<open>
  A buffered channel: the queued values (oldest first), the capacity given to \<open>make\<close>
  and whether \<open>close\<close> has been called.
\<close>

record 'a chan =
  buf :: "'a list"
  cap :: nat
  closed :: bool

definition make_chan :: "nat \<Rightarrow> 'a chan" where
  "make_chan n = \<lparr>buf = [], cap = n, closed = False\<rparr>"

text \<open>
  Receiving, as \<open>range\<close> does: the oldest queued value if there is one (also after the
  close), the end of the loop when the channel is closed and drained, and otherwise the
  goroutine stays blocked.
\<close>

datatype 'a recv = Got 'a "'a chan" | Drained | RecvBlocked

definition chan_recv :: "'a chan \<Rightarrow> 'a recv" where
  "chan_recv c =
     (case buf c of
        x # xs \<Rightarrow> Got x (c\<lparr>buf := xs\<rparr>)
      | [] \<Rightarrow> if closed c then Drained else RecvBlocked)"

text \<open>
  Sending: a panic on a closed channel, a queued value while the buffer has room, and
  otherwise the goroutine stays blocked.  (A send on a channel of capacity 0 needs a
  receiver waiting at the same moment; the model leaves such a send blocked.  The pool
  makes its channels with capacity \<open>numJobs\<close> and sends nothing when \<open>numJobs\<close> is 0.)
\<close>

datatype 'a send = Sent "'a chan" | SendBlocked | SendPanic

definition chan_send :: "'a \<Rightarrow> 'a chan \<Rightarrow> 'a send" where
  "chan_send x c =
     (if closed c then SendPanic
      else if length (buf c) < cap c then Sent (c\<lparr>buf := buf c @ [x]\<rparr>)
      else SendBlocked)"

text \<open>Closing: a panic (\<open>None\<close>) when the channel is closed already.\<close>

definition chan_close :: "'a chan \<Rightarrow> 'a chan option" where
  "chan_close c = (if closed c then None else Some (c\<lparr>closed := True\<rparr>))"

subsection \<open>The state of one run of \<open>demonstrateWorkerPool\<close>\<close>

text \<open>
  Every goroutine has a program counter naming the statement it executes next.

  \<open>worker\<close>: the \<open>range\<close> over \<open>jobs\<close>, then for the received job the \<open>Printf\<close>, the
  \<open>Sleep\<close> and the send of \<open>job * 2\<close>; after the loop the deferred \<open>wg.Done()\<close>.
\<close>

datatype worker_pc = WRange | WPrintf int | WSleep int | WSend int | WDone | WExited

text \<open>
  \<open>demonstrateWorkerPool\<close>: the header line, the loop that starts the workers
  (condition, \<open>wg.Add(1)\<close>, \<open>go worker(...)\<close>), the loop that sends the jobs (condition,
  send), \<open>close(jobs)\<close>, the start of the anonymous goroutine, and the \<open>range\<close> over
  \<open>results\<close> with its \<open>Printf\<close>.
\<close>

datatype main_pc =
    MPrintln
  | MWorkerLoop int | MAdd int | MGo int
  | MJobLoop int | MSend int
  | MCloseJobs | MGoCloser
  | MRange | MPrintf int
  | MReturn

text \<open>The anonymous goroutine: \<open>wg.Wait()\<close>, then \<open>close(results)\<close>.\<close>

datatype closer_pc = CNotStarted | CWait | CClose | CExited

text \<open>The lines written to standard output.\<close>

datatype out_line = Header | Processing int int | Result int

datatype panic = SendOnClosedChannel | CloseOfClosedChannel | NegativeWaitGroupCounter

record pool =
  jobs :: "int chan"
  results :: "int chan"
  wg :: int
  workers :: "(int \<times> worker_pc) list"
  main :: main_pc
  closer :: closer_pc
  stdout :: "out_line list"
  failure :: "panic option"

text \<open>
  The state at the entry of \<open>demonstrateWorkerPool\<close>, with both channels made with
  capacity \<open>numJobs\<close> and the zero \<open>WaitGroup\<close>.  The source fixes \<open>numWorkers = 3\<close>
  and \<open>numJobs = 9\<close>; here they are parameters: \<open>numWorkers\<close> any Go integer, and
  \<open>numJobs\<close>, the capacity that \<open>make\<close> accepts, a natural number.
\<close>

definition init :: "nat \<Rightarrow> pool" where
  "init numJobs =
     \<lparr>jobs = make_chan numJobs, results = make_chan numJobs, wg = 0, workers = [],
      main = MPrintln, closer = CNotStarted, stdout = [], failure = None\<rparr>"

subsection \<open>One step of each goroutine\<close>

text \<open>
  \<^verbatim>\<open>
  func worker(id int, jobs <-chan int, results chan<- int, wg *sync.WaitGroup) {
      defer wg.Done()
      for job := range jobs {
          fmt.Printf("Worker %d processing job %d\n", id, job)
          time.Sleep(time.Duration(rand.Intn(1000)) * time.Millisecond)
          results <- job * 2
      }
  }
  \<close>
  One step of the worker at position \<open>i\<close> of the list of started workers (its own \<open>id\<close>
  is stored with its program counter).  \<open>None\<close>: the goroutine cannot move (blocked,
  exited or never started).  The sleep changes nothing in the state; \<open>wg.Done()\<close>
  panics when the counter would become negative.
\<close>

definition set_worker :: "nat \<Rightarrow> int \<times> worker_pc \<Rightarrow> pool \<Rightarrow> pool" where
  "set_worker i w s = s\<lparr>workers := (workers s)[i := w]\<rparr>"

definition worker :: "nat \<Rightarrow> pool \<Rightarrow> pool option" where
  "worker i s =
     (if length (workers s) \<le> i then None
      else case workers s ! i of (wid, pc) \<Rightarrow>
        (case pc of
           WRange \<Rightarrow>
             (case chan_recv (jobs s) of
                Got job c \<Rightarrow> Some (set_worker i (wid, WPrintf job) (s\<lparr>jobs := c\<rparr>))
              | Drained \<Rightarrow> Some (set_worker i (wid, WDone) s)
              | RecvBlocked \<Rightarrow> None)
         | WPrintf job \<Rightarrow>
             Some (set_worker i (wid, WSleep job) (s\<lparr>stdout := stdout s @ [Processing wid job]\<rparr>))
         | WSleep job \<Rightarrow> Some (set_worker i (wid, WSend job) s)
         | WSend job \<Rightarrow>
             (case chan_send (go_int (job * 2)) (results s) of
                Sent c \<Rightarrow> Some (set_worker i (wid, WRange) (s\<lparr>results := c\<rparr>))
              | SendBlocked \<Rightarrow> None
              | SendPanic \<Rightarrow> Some (s\<lparr>failure := Some SendOnClosedChannel\<rparr>))
         | WDone \<Rightarrow>
             (if wg s - 1 < 0 then Some (s\<lparr>failure := Some NegativeWaitGroupCounter\<rparr>)
              else Some (set_worker i (wid, WExited) (s\<lparr>wg := wg s - 1\<rparr>)))
         | WExited \<Rightarrow> None))"

text \<open>
  \<^verbatim>\<open>
  func demonstrateWorkerPool() {
      fmt.Println("\n=== WORKER POOL DEMONSTRATION ===")
      const numWorkers = 3
      const numJobs = 9
      jobs := make(chan int, numJobs)
      results := make(chan int, numJobs)
      var wg sync.WaitGroup
      for w := 1; w <= numWorkers; w++ {
          wg.Add(1)
          go worker(w, jobs, results, &wg)
      }
      for j := 1; j <= numJobs; j++ {
          jobs <- j
      }
      close(jobs)
      go func() {
          wg.Wait()
          close(results)
      }()
      for result := range results {
          fmt.Printf("Result: %d\n", result)
      }
  }
  \<close>
  One step of \<open>demonstrateWorkerPool\<close>; the increment of a loop variable is taken
  together with the last statement of the loop body.
\<close>

definition demonstrateWorkerPool :: "int \<Rightarrow> nat \<Rightarrow> pool \<Rightarrow> pool option" where
  "demonstrateWorkerPool numWorkers numJobs s =
     (case main s of
        MPrintln \<Rightarrow> Some (s\<lparr>stdout := stdout s @ [Header], main := MWorkerLoop 1\<rparr>)
      | MWorkerLoop w \<Rightarrow>
          Some (s\<lparr>main := (if w \<le> numWorkers then MAdd w else MJobLoop 1)\<rparr>)
      | MAdd w \<Rightarrow> Some (s\<lparr>wg := wg s + 1, main := MGo w\<rparr>)
      | MGo w \<Rightarrow> Some (s\<lparr>workers := workers s @ [(w, WRange)], main := MWorkerLoop (w + 1)\<rparr>)
      | MJobLoop j \<Rightarrow>
          Some (s\<lparr>main := (if j \<le> int numJobs then MSend j else MCloseJobs)\<rparr>)
      | MSend j \<Rightarrow>
          (case chan_send j (jobs s) of
             Sent c \<Rightarrow> Some (s\<lparr>jobs := c, main := MJobLoop (j + 1)\<rparr>)
           | SendBlocked \<Rightarrow> None
           | SendPanic \<Rightarrow> Some (s\<lparr>failure := Some SendOnClosedChannel\<rparr>))
      | MCloseJobs \<Rightarrow>
          (case chan_close (jobs s) of
             Some c \<Rightarrow> Some (s\<lparr>jobs := c, main := MGoCloser\<rparr>)
           | None \<Rightarrow> Some (s\<lparr>failure := Some CloseOfClosedChannel\<rparr>))
      | MGoCloser \<Rightarrow> Some (s\<lparr>closer := CWait, main := MRange\<rparr>)
      | MRange \<Rightarrow>
          (case chan_recv (results s) of
             Got result c \<Rightarrow> Some (s\<lparr>results := c, main := MPrintf result\<rparr>)
           | Drained \<Rightarrow> Some (s\<lparr>main := MReturn\<rparr>)
           | RecvBlocked \<Rightarrow> None)
      | MPrintf result \<Rightarrow> Some (s\<lparr>stdout := stdout s @ [Result result], main := MRange\<rparr>)
      | MReturn \<Rightarrow> None)"

text \<open>
  One step of the anonymous goroutine: \<open>wg.Wait()\<close> returns once the counter is zero.
\<close>

definition closer_step :: "pool \<Rightarrow> pool option" where
  "closer_step s =
     (case closer s of
        CNotStarted \<Rightarrow> None
      | CWait \<Rightarrow> (if wg s = 0 then Some (s\<lparr>closer := CClose\<rparr>) else None)
      | CClose \<Rightarrow>
          (case chan_close (results s) of
             Some c \<Rightarrow> Some (s\<lparr>results := c, closer := CExited\<rparr>)
           | None \<Rightarrow> Some (s\<lparr>failure := Some CloseOfClosedChannel\<rparr>))
      | CExited \<Rightarrow> None)"

subsection \<open>Interleavings\<close>

text \<open>
  The scheduler picks a goroutine; a panic in any goroutine stops the program.  A
  schedule is the list of its picks, and \<open>exec\<close> runs it, failing when a picked goroutine
  cannot move.
\<close>

datatype goroutine = Main | Worker nat | Closer

definition step :: "int \<Rightarrow> nat \<Rightarrow> goroutine \<Rightarrow> pool \<Rightarrow> pool option" where
  "step numWorkers numJobs g s =
     (if failure s \<noteq> None then None
      else case g of
        Main \<Rightarrow> demonstrateWorkerPool numWorkers numJobs s
      | Worker i \<Rightarrow> worker i s
      | Closer \<Rightarrow> closer_step s)"

fun exec :: "int \<Rightarrow> nat \<Rightarrow> goroutine list \<Rightarrow> pool \<Rightarrow> pool option" where
  "exec numWorkers numJobs [] s = Some s"
| "exec numWorkers numJobs (g # gs) s =
     (case step numWorkers numJobs g s of
        None \<Rightarrow> None
      | Some s' \<Rightarrow> exec numWorkers numJobs gs s')"

text \<open>The results the consumer has printed, in order, and the jobs the workers announced.\<close>

fun collected :: "out_line list \<Rightarrow> int list" where
  "collected [] = []"
| "collected (Result r # out) = r # collected out"
| "collected (_ # out) = collected out"

fun processed :: "out_line list \<Rightarrow> (int \<times> int) list" where
  "processed [] = []"
| "processed (Processing w job # out) = (w, job) # processed out"
| "processed (_ # out) = processed out"



text \<open>
  What a run does on the channels, read off its steps: a worker's \<open>range\<close> hands it a
  job (\<open>Claim id job\<close>: its program counter goes from the \<open>range\<close> to the \<open>Printf\<close> of
  that job), a worker's send puts a value on \<open>results\<close> (\<open>Publish id job value\<close>: its
  program counter goes from the send back to the \<open>range\<close>, and the value is the one now
  last in the queue), and the anonymous goroutine executes \<open>close(results)\<close>
  (\<open>CloseResults\<close>, recorded whenever the statement is executed, also if it were to
  panic).  \<open>trace\<close> collects these events along a run.
\<close>

datatype event = Claim int int | Publish int int int | CloseResults

definition observe :: "goroutine \<Rightarrow> pool \<Rightarrow> pool \<Rightarrow> event list" where
  "observe g s s' =
     (case g of
        Main \<Rightarrow> []
      | Worker i \<Rightarrow>
          (case (workers s ! i, workers s' ! i) of
             ((wid, WRange), (_, WPrintf job)) \<Rightarrow> [Claim wid job]
           | ((wid, WSend job), (_, WRange)) \<Rightarrow> [Publish wid job (last (buf (results s')))]
           | _ \<Rightarrow> [])
      | Closer \<Rightarrow> (if closer s = CClose then [CloseResults] else []))"

fun trace :: "int \<Rightarrow> nat \<Rightarrow> goroutine list \<Rightarrow> pool \<Rightarrow> event list" where
  "trace numWorkers numJobs [] s = []"
| "trace numWorkers numJobs (g # gs) s =
     (case step numWorkers numJobs g s of
        None \<Rightarrow> []
      | Some s' \<Rightarrow> observe g s s' @ trace numWorkers numJobs gs s')"

text \<open>
  The claims of a trace (worker id and job), its publications (worker id and job), the
  result stream (the values published, in order) and the number of times
  \<open>close(results)\<close> was executed.
\<close>

fun claims :: "event list \<Rightarrow> (int \<times> int) list" where
  "claims [] = []"
| "claims (Claim wid job # es) = (wid, job) # claims es"
| "claims (_ # es) = claims es"

fun publishers :: "event list \<Rightarrow> (int \<times> int) list" where
  "publishers [] = []"
| "publishers (Publish wid job v # es) = (wid, job) # publishers es"
| "publishers (_ # es) = publishers es"

fun stream :: "event list \<Rightarrow> int list" where
  "stream [] = []"
| "stream (Publish wid job v # es) = v # stream es"
| "stream (_ # es) = stream es"

fun closes :: "event list \<Rightarrow> nat" where
  "closes [] = 0"
| "closes (CloseResults # es) = Suc (closes es)"
| "closes (_ # es) = closes es"

text \<open>
  The sequential reading of the pool that the specification compares the single-worker
  pool with: the worker's computation mapped over the batch, in submission order.
\<close>

definition sequential_results :: "int list \<Rightarrow> int list" where
  "sequential_results batch = map (\<lambda>job. go_int (job * 2)) batch"

subsection \<open>Book-keeping: where every job and every result is\<close>


text \<open>
  \<open>double\<close> is the worker's computation.  At any moment a job is still to be sent by
  \<open>demonstrateWorkerPool\<close> (\<open>unsent\<close>), queued in \<open>jobs\<close>, or claimed by a worker
  (\<open>claimed\<close>, and \<open>unannounced\<close> while its \<open>Printf\<close> is still to come); its result is
  queued in \<open>results\<close>, held by the consumer before its \<open>Printf\<close> (\<open>held\<close>), or
  printed.
\<close>

definition double :: "int \<Rightarrow> int" where
  "double job = go_int (job * 2)"

fun unsent :: "nat \<Rightarrow> main_pc \<Rightarrow> int list" where
  "unsent M MPrintln = [1..int M]"
| "unsent M (MWorkerLoop w) = [1..int M]"
| "unsent M (MAdd w) = [1..int M]"
| "unsent M (MGo w) = [1..int M]"
| "unsent M (MJobLoop j) = [j..int M]"
| "unsent M (MSend j) = [j..int M]"
| "unsent M _ = []"

fun held :: "main_pc \<Rightarrow> int list" where
  "held (MPrintf r) = [r]"
| "held _ = []"

fun claimed :: "worker_pc \<Rightarrow> int list" where
  "claimed (WPrintf job) = [job]"
| "claimed (WSleep job) = [job]"
| "claimed (WSend job) = [job]"
| "claimed _ = []"

fun unannounced :: "worker_pc \<Rightarrow> int list" where
  "unannounced (WPrintf job) = [job]"
| "unannounced _ = []"

fun in_flight :: "(int \<times> worker_pc) list \<Rightarrow> int list" where
  "in_flight [] = []"
| "in_flight ((wid, pc) # ws) = claimed pc @ in_flight ws"

fun not_announced :: "(int \<times> worker_pc) list \<Rightarrow> int list" where
  "not_announced [] = []"
| "not_announced ((wid, pc) # ws) = unannounced pc @ not_announced ws"

text \<open>
  The \<open>ledger\<close> lists the results printed, held and queued, followed by the results
  still owed for the jobs claimed, queued and unsent; the \<open>job_ledger\<close> lists the jobs
  announced on standard output, followed by the jobs claimed but not announced, queued
  and unsent.
\<close>

definition ledger :: "nat \<Rightarrow> pool \<Rightarrow> int list" where
  "ledger M s =
     collected (stdout s) @ held (main s) @ buf (results s)
     @ map double (in_flight (workers s) @ buf (jobs s) @ unsent M (main s))"

definition job_ledger :: "nat \<Rightarrow> pool \<Rightarrow> int list" where
  "job_ledger M s =
     map snd (processed (stdout s)) @ not_announced (workers s)
     @ buf (jobs s) @ unsent M (main s)"

subsection \<open>Invariant of the reachable states\<close>


text \<open>
  A worker is \<open>live\<close> until its \<open>wg.Done()\<close> has run and \<open>finished\<close> once its
  \<open>range\<close> loop has ended.  The remaining functions read off the program counter of
  \<open>demonstrateWorkerPool\<close> what the loops have done so far: the range of the loop
  variable (\<open>pc_ok\<close>), the number of workers started (\<open>spawned\<close>), a pending
  \<open>wg.Add(1)\<close> whose worker is not started yet (\<open>adding\<close>), and whether \<open>jobs\<close> has
  been closed and the anonymous goroutine started.
\<close>

fun live :: "worker_pc \<Rightarrow> nat" where
  "live WExited = 0"
| "live _ = 1"

fun finished :: "worker_pc \<Rightarrow> nat" where
  "finished WDone = 1"
| "finished WExited = 1"
| "finished _ = 0"

fun live_count :: "(int \<times> worker_pc) list \<Rightarrow> nat" where
  "live_count [] = 0"
| "live_count ((wid, pc) # ws) = live pc + live_count ws"

fun finished_count :: "(int \<times> worker_pc) list \<Rightarrow> nat" where
  "finished_count [] = 0"
| "finished_count ((wid, pc) # ws) = finished pc + finished_count ws"

fun pc_ok :: "int \<Rightarrow> nat \<Rightarrow> main_pc \<Rightarrow> bool" where
  "pc_ok N M (MWorkerLoop w) = (1 \<le> w \<and> w \<le> max 1 (N + 1))"
| "pc_ok N M (MAdd w) = (1 \<le> w \<and> w \<le> N)"
| "pc_ok N M (MGo w) = (1 \<le> w \<and> w \<le> N)"
| "pc_ok N M (MJobLoop j) = (1 \<le> j \<and> j \<le> int M + 1)"
| "pc_ok N M (MSend j) = (1 \<le> j \<and> j \<le> int M)"
| "pc_ok N M _ = True"

fun spawned :: "int \<Rightarrow> main_pc \<Rightarrow> nat" where
  "spawned N MPrintln = 0"
| "spawned N (MWorkerLoop w) = nat (w - 1)"
| "spawned N (MAdd w) = nat (w - 1)"
| "spawned N (MGo w) = nat (w - 1)"
| "spawned N _ = nat N"

fun adding :: "main_pc \<Rightarrow> nat" where
  "adding (MGo w) = 1"
| "adding _ = 0"

fun after_close :: "main_pc \<Rightarrow> bool" where
  "after_close MGoCloser = True"
| "after_close MRange = True"
| "after_close (MPrintf r) = True"
| "after_close MReturn = True"
| "after_close _ = False"

fun closer_started :: "main_pc \<Rightarrow> bool" where
  "closer_started MRange = True"
| "closer_started (MPrintf r) = True"
| "closer_started MReturn = True"
| "closer_started _ = False"

definition inv :: "int \<Rightarrow> nat \<Rightarrow> pool \<Rightarrow> bool" where
  "inv N M s \<longleftrightarrow>
     failure s = None \<and> cap (jobs s) = M \<and> cap (results s) = M
     \<and> pc_ok N M (main s)
     \<and> length (workers s) = spawned N (main s)
     \<and> wg s = int (live_count (workers s) + adding (main s))
     \<and> closed (jobs s) = after_close (main s)
     \<and> (closer s \<noteq> CNotStarted) = closer_started (main s)
     \<and> closed (results s) = (closer s = CExited)
     \<and> (closer s = CClose \<or> closer s = CExited \<longrightarrow> live_count (workers s) = 0)
     \<and> (0 < finished_count (workers s) \<longrightarrow> closed (jobs s) \<and> buf (jobs s) = [])
     \<and> (main s = MReturn \<longrightarrow> closed (results s) \<and> buf (results s) = [])"

definition reached :: "int \<Rightarrow> nat \<Rightarrow> pool \<Rightarrow> bool" where
  "reached N M s \<longleftrightarrow>
     inv N M s \<and> mset (ledger M s) = mset (map double [1..int M])
     \<and> mset (job_ledger M s) = mset [1..int M]"

subsection \<open>A measure that every step decreases\<close>


text \<open>
  The number of steps each goroutine still has to make, counting for every job and
  result that is queued or yet to be sent the steps that will handle it.
\<close>

fun worker_rank :: "worker_pc \<Rightarrow> nat" where
  "worker_rank WRange = 2"
| "worker_rank (WPrintf job) = 7"
| "worker_rank (WSleep job) = 6"
| "worker_rank (WSend job) = 5"
| "worker_rank WDone = 1"
| "worker_rank WExited = 0"

fun rank_sum :: "(int \<times> worker_pc) list \<Rightarrow> nat" where
  "rank_sum [] = 0"
| "rank_sum ((wid, pc) # ws) = worker_rank pc + rank_sum ws"

fun closer_rank :: "closer_pc \<Rightarrow> nat" where
  "closer_rank CNotStarted = 0"
| "closer_rank CWait = 2"
| "closer_rank CClose = 1"
| "closer_rank CExited = 0"

fun main_rank :: "int \<Rightarrow> nat \<Rightarrow> main_pc \<Rightarrow> nat" where
  "main_rank N M MPrintln = 8 + 5 * nat N + 8 * M"
| "main_rank N M (MWorkerLoop w) = 7 + 5 * nat (N + 1 - w) + 8 * M"
| "main_rank N M (MAdd w) = 11 + 5 * nat (N - w) + 8 * M"
| "main_rank N M (MGo w) = 10 + 5 * nat (N - w) + 8 * M"
| "main_rank N M (MJobLoop j) = 6 + 8 * nat (int M + 1 - j)"
| "main_rank N M (MSend j) = 13 + 8 * nat (int M - j)"
| "main_rank N M MCloseJobs = 5"
| "main_rank N M MGoCloser = 4"
| "main_rank N M MRange = 1"
| "main_rank N M (MPrintf r) = 2"
| "main_rank N M MReturn = 0"

definition rank :: "int \<Rightarrow> nat \<Rightarrow> pool \<Rightarrow> nat" where
  "rank N M s =
     main_rank N M (main s) + closer_rank (closer s)
     + rank_sum (workers s)
     + 6 * length (buf (jobs s)) + 2 * length (buf (results s))
     + (if failure s = None then 1 else 0)"

text \<open>
  A pool that has started no worker has printed, held and queued no result.
\<close>

definition quiet :: "pool \<Rightarrow> bool" where
  "quiet s \<longleftrightarrow>
     workers s = [] \<and> collected (stdout s) = [] \<and> processed (stdout s) = []
     \<and> buf (results s) = [] \<and> held (main s) = []"

text \<open>
  The jobs the workers hold, with the worker's id; the results that have reached the
  consumer's side (printed, held or queued in \<open>results\<close>); the jobs not yet claimed
  (queued or unsent).  \<open>flows\<close> relates the trace of a run to its first and last state:
  a claimed job is published or still held, by the worker that claimed it; the jobs
  claimed are the jobs that left the waiting ones; the stream is what was added to the
  delivered results, each value the double of its job; and the executions of
  \<open>close(results)\<close> are the moves of the anonymous goroutine to its exit.
\<close>

fun holding :: "(int \<times> worker_pc) list \<Rightarrow> (int \<times> int) list" where
  "holding [] = []"
| "holding ((wid, pc) # ws) = map (Pair wid) (claimed pc) @ holding ws"

definition delivered :: "pool \<Rightarrow> int list" where
  "delivered s = collected (stdout s) @ held (main s) @ buf (results s)"

definition waiting :: "nat \<Rightarrow> pool \<Rightarrow> int list" where
  "waiting M s = buf (jobs s) @ unsent M (main s)"

definition flows :: "nat \<Rightarrow> event list \<Rightarrow> pool \<Rightarrow> pool \<Rightarrow> bool" where
  "flows M tr s s' \<longleftrightarrow>
     mset (claims tr) + mset (holding (workers s)) = mset (publishers tr) + mset (holding (workers s'))
     \<and> mset (map snd (claims tr)) + mset (waiting M s') = mset (waiting M s)
     \<and> delivered s' = delivered s @ stream tr
     \<and> stream tr = map (\<lambda>(wid, job). go_int (job * 2)) (publishers tr)
     \<and> closes tr + (if closer s = CExited then 1 else 0) = (if closer s' = CExited then 1 else 0)"

subsection \<open>Concrete runs\<close>

text \<open>
  One complete interleaving of the pool as the source configures it (three workers, nine
  jobs): 95 picks of the scheduler, ending with the return of \<open>demonstrateWorkerPool\<close>.
  The second worker publishes first, so the results arrive as 4, 6, 2, 8, ...
\<close>

definition demo_schedule :: "goroutine list" where
  "demo_schedule =
     [Main, Main, Main, Main, Main, Main, Main, Main, Main, Main, Main, Main, Main,
      Main, Main, Main, Main, Main, Main, Main, Main, Main, Main, Main, Main, Main,
      Main, Main, Main, Main, Main, Main, Worker 0, Worker 1, Worker 1, Worker 1,
      Worker 1, Worker 2, Worker 2, Worker 2, Worker 2, Worker 0, Worker 0, Worker 0,
      Main, Main, Main, Main, Worker 2, Worker 2, Worker 2, Worker 2, Main, Main,
      Worker 2, Worker 2, Worker 2, Worker 2, Main, Main, Worker 1, Worker 1,
      Worker 1, Worker 1, Main, Main, Worker 0, Worker 0, Worker 0, Worker 0, Main,
      Main, Worker 1, Worker 1, Worker 1, Worker 1, Main, Main, Worker 2, Worker 2,
      Worker 2, Worker 2, Main, Main, Worker 1, Worker 1, Worker 0, Worker 2,
      Worker 0, Worker 2, Closer, Closer, Main, Main, Main]"

text \<open>A complete run of one worker on five jobs, and one of two workers on no job.\<close>

definition single_worker_schedule :: "goroutine list" where
  "single_worker_schedule =
     [Main, Main, Main, Main, Main, Main, Main, Main, Main, Worker 0, Main, Worker 0,
      Main, Main, Worker 0, Worker 0, Worker 0, Worker 0, Main, Main, Worker 0, Main,
      Worker 0, Main, Main, Worker 0, Worker 0, Worker 0, Worker 0, Main, Main,
      Worker 0, Main, Worker 0, Main, Main, Worker 0, Worker 0, Worker 0, Worker 0,
      Main, Main, Worker 0, Main, Worker 0, Main, Main, Worker 0, Worker 0, Closer,
      Closer, Main, Main]"

definition empty_batch_schedule :: "goroutine list" where
  "empty_batch_schedule =
     [Main, Main, Main, Main, Main, Main, Main, Main, Main, Main, Worker 1, Worker 1,
      Main, Worker 0, Worker 0, Closer, Closer, Main]"

text \<open>A complete run with no worker and one job.\<close>

definition no_worker_schedule :: "goroutine list" where
  "no_worker_schedule = [Main, Main, Main, Main, Main, Main, Main, Closer, Closer, Main]"

text \<open>The states these runs end in.\<close>

definition demo_final :: pool where
  "demo_final = the (exec 3 9 demo_schedule (init 9))"

definition single_worker_final :: pool where
  "single_worker_final = the (exec 1 5 single_worker_schedule (init 5))"

definition empty_batch_final :: pool where
  "empty_batch_final = the (exec 2 0 empty_batch_schedule (init 0))"

definition no_worker_final :: pool where
  "no_worker_final = the (exec 0 1 no_worker_schedule (init 1))"

section \<open>Lemmas\<close>


lemma in_flight_append [simp]: "in_flight (xs @ ys) = in_flight xs @ in_flight ys"
  by (induction xs rule: in_flight.induct) simp_all

lemma not_announced_append [simp]: "not_announced (xs @ ys) = not_announced xs @ not_announced ys"
  by (induction xs rule: not_announced.induct) simp_all

lemma live_count_append [simp]: "live_count (xs @ ys) = live_count xs + live_count ys"
  by (induction xs rule: live_count.induct) simp_all

lemma finished_count_append [simp]: "finished_count (xs @ ys) = finished_count xs + finished_count ys"
  by (induction xs rule: finished_count.induct) simp_all

lemma rank_sum_append [simp]: "rank_sum (xs @ ys) = rank_sum xs + rank_sum ys"
  by (induction xs rule: rank_sum.induct) simp_all

lemma worker_cases [consumes 1, case_names recv drained printf sleep send send_panic wg_done wg_panic]:
  assumes "worker i s = Some s'"
  obtains
    (recv) pre wid post job rest where
      "workers s = pre @ (wid, WRange) # post" "i = length pre" "buf (jobs s) = job # rest"
      "s' = s\<lparr>jobs := (jobs s)\<lparr>buf := rest\<rparr>, workers := pre @ (wid, WPrintf job) # post\<rparr>"
  | (drained) pre wid post where
      "workers s = pre @ (wid, WRange) # post" "i = length pre" "buf (jobs s) = []"
      "closed (jobs s)" "s' = s\<lparr>workers := pre @ (wid, WDone) # post\<rparr>"
  | (printf) pre wid post job where
      "workers s = pre @ (wid, WPrintf job) # post" "i = length pre"
      "s' = s\<lparr>stdout := stdout s @ [Processing wid job], workers := pre @ (wid, WSleep job) # post\<rparr>"
  | (sleep) pre wid post job where
      "workers s = pre @ (wid, WSleep job) # post" "i = length pre"
      "s' = s\<lparr>workers := pre @ (wid, WSend job) # post\<rparr>"
  | (send) pre wid post job where
      "workers s = pre @ (wid, WSend job) # post" "i = length pre"
      "\<not> closed (results s)" "length (buf (results s)) < cap (results s)"
      "s' = s\<lparr>results := (results s)\<lparr>buf := buf (results s) @ [go_int (job * 2)]\<rparr>,
               workers := pre @ (wid, WRange) # post\<rparr>"
  | (send_panic) pre wid post job where
      "workers s = pre @ (wid, WSend job) # post" "i = length pre"
      "closed (results s)" "s' = s\<lparr>failure := Some SendOnClosedChannel\<rparr>"
  | (wg_done) pre wid post where
      "workers s = pre @ (wid, WDone) # post" "i = length pre" "1 \<le> wg s"
      "s' = s\<lparr>wg := wg s - 1, workers := pre @ (wid, WExited) # post\<rparr>"
  | (wg_panic) pre wid post where
      "workers s = pre @ (wid, WDone) # post" "i = length pre" "wg s < 1"
      "s' = s\<lparr>failure := Some NegativeWaitGroupCounter\<rparr>"
proof -
  from assms have i: "i < length (workers s)"
    by (auto simp: worker_def split: if_splits)
  obtain wid pc where w: "workers s ! i = (wid, pc)" by (cases "workers s ! i")
  define pre post where "pre = take i (workers s)" and "post = drop (Suc i) (workers s)"
  have ws: "workers s = pre @ (wid, pc) # post" and len: "i = length pre"
    using i w id_take_nth_drop[OF i] by (simp_all add: pre_def post_def)
  have upd: "(workers s)[i := x] = pre @ x # post" for x
    by (simp add: ws len)
  show thesis
  proof (cases pc)
    case WRange
    show ?thesis
    proof (cases "buf (jobs s)")
      case Nil
      with assms i w WRange have "closed (jobs s)" "s' = s\<lparr>workers := pre @ (wid, WDone) # post\<rparr>"
        by (auto simp: worker_def chan_recv_def set_worker_def upd split: if_splits)
      with drained ws len WRange Nil show ?thesis by blast
    next
      case (Cons job rest)
      with assms i w WRange
      have "s' = s\<lparr>jobs := (jobs s)\<lparr>buf := rest\<rparr>, workers := pre @ (wid, WPrintf job) # post\<rparr>"
        by (auto simp: worker_def chan_recv_def set_worker_def upd)
      with recv ws len WRange Cons show ?thesis by blast
    qed
  next
    case (WPrintf job)
    with assms i w
    have "s' = s\<lparr>stdout := stdout s @ [Processing wid job], workers := pre @ (wid, WSleep job) # post\<rparr>"
      by (auto simp: worker_def set_worker_def upd)
    with printf ws len WPrintf show ?thesis by blast
  next
    case (WSleep job)
    with assms i w have "s' = s\<lparr>workers := pre @ (wid, WSend job) # post\<rparr>"
      by (auto simp: worker_def set_worker_def upd)
    with sleep ws len WSleep show ?thesis by blast
  next
    case (WSend job)
    show ?thesis
    proof (cases "closed (results s)")
      case True
      with assms i w WSend have "s' = s\<lparr>failure := Some SendOnClosedChannel\<rparr>"
        by (auto simp: worker_def chan_send_def)
      with send_panic ws len WSend True show ?thesis by blast
    next
      case False
      with assms i w WSend have "length (buf (results s)) < cap (results s)"
        "s' = s\<lparr>results := (results s)\<lparr>buf := buf (results s) @ [go_int (job * 2)]\<rparr>,
               workers := pre @ (wid, WRange) # post\<rparr>"
        by (auto simp: worker_def chan_send_def set_worker_def upd split: if_splits)
      with send ws len WSend False show ?thesis by blast
    qed
  next
    case WDone
    show ?thesis
    proof (cases "1 \<le> wg s")
      case True
      with assms i w WDone have "s' = s\<lparr>wg := wg s - 1, workers := pre @ (wid, WExited) # post\<rparr>"
        by (auto simp: worker_def set_worker_def upd)
      with wg_done ws len WDone True show ?thesis by blast
    next
      case False
      with assms i w WDone have "s' = s\<lparr>failure := Some NegativeWaitGroupCounter\<rparr>"
        by (auto simp: worker_def)
      with wg_panic ws len WDone False show ?thesis by fastforce
    qed
  next
    case WExited
    with assms i w show ?thesis by (auto simp: worker_def)
  qed
qed

lemma nat_diff_Suc: "w \<le> (N::int) \<Longrightarrow> nat (N + 1 - w) = Suc (nat (N - w))"
  by simp

lemma rank_main:
  assumes "demonstrateWorkerPool N M s = Some s'" "failure s = None"
  shows "rank N M s' < rank N M s"
  using assms
  by (cases "main s")
     (auto simp: demonstrateWorkerPool_def rank_def chan_send_def chan_recv_def chan_close_def
                 nat_diff_Suc split: if_splits list.splits)

lemma rank_closer:
  assumes "closer_step s = Some s'" "failure s = None"
  shows "rank N M s' < rank N M s"
  using assms
  by (cases "closer s")
     (auto simp: closer_step_def rank_def chan_close_def split: if_splits)

lemma rank_worker:
  assumes "worker i s = Some s'" "failure s = None"
  shows "rank N M s' < rank N M s"
  using assms by (cases rule: worker_cases) (auto simp: rank_def)

lemma rank_step: "step N M g s = Some s' \<Longrightarrow> rank N M s' < rank N M s"
  by (cases g) (auto simp: step_def rank_main rank_worker rank_closer split: if_splits)

lemma rank_exec: "exec N M gs s = Some s' \<Longrightarrow> length gs + rank N M s' \<le> rank N M s"
proof (induction gs arbitrary: s)
  case Nil
  then show ?case by simp
next
  case (Cons g gs)
  then obtain t where t: "step N M g s = Some t" "exec N M gs t = Some s'"
    by (auto split: option.splits)
  from Cons.IH[OF t(2)] rank_step[OF t(1)] show ?case by simp
qed

lemma collected_append: "collected (xs @ ys) = collected xs @ collected ys"
  by (induction xs rule: collected.induct) simp_all

lemma processed_append: "processed (xs @ ys) = processed xs @ processed ys"
  by (induction xs rule: processed.induct) simp_all

lemma pc_ok_main:
  "demonstrateWorkerPool N M s = Some s' \<Longrightarrow> pc_ok N M (main s) \<Longrightarrow> pc_ok N M (main s')"
  by (cases "main s")
     (auto simp: demonstrateWorkerPool_def chan_send_def chan_recv_def chan_close_def
           split: if_splits list.splits)

lemma main_worker: "worker i s = Some s' \<Longrightarrow> main s' = main s"
  by (cases rule: worker_cases) auto

lemma main_closer: "closer_step s = Some s' \<Longrightarrow> main s' = main s"
  by (cases "closer s") (auto simp: closer_step_def chan_close_def split: if_splits)

lemma pc_ok_step: "step N M g s = Some s' \<Longrightarrow> pc_ok N M (main s) \<Longrightarrow> pc_ok N M (main s')"
  by (cases g) (auto simp: step_def pc_ok_main main_worker main_closer split: if_splits)

lemma ledger_main:
  "demonstrateWorkerPool N M s = Some s' \<Longrightarrow> pc_ok N M (main s) \<Longrightarrow>
   mset (ledger M s') = mset (ledger M s)"
  by (cases "main s")
     (auto simp: demonstrateWorkerPool_def chan_send_def chan_recv_def chan_close_def
                 ledger_def collected_append upto_rec1
           split: if_splits list.splits)

lemma ledger_worker:
  "worker i s = Some s' \<Longrightarrow> mset (ledger M s') = mset (ledger M s)"
  by (cases rule: worker_cases)
     (auto simp: ledger_def collected_append double_def)

lemma ledger_closer: "closer_step s = Some s' \<Longrightarrow> ledger M s' = ledger M s"
  by (cases "closer s")
     (auto simp: closer_step_def chan_close_def ledger_def split: if_splits)

lemma ledger_step:
  "step N M g s = Some s' \<Longrightarrow> pc_ok N M (main s) \<Longrightarrow> mset (ledger M s') = mset (ledger M s)"
  by (cases g) (auto simp: step_def ledger_main ledger_worker ledger_closer split: if_splits)

lemma job_ledger_main:
  "demonstrateWorkerPool N M s = Some s' \<Longrightarrow> pc_ok N M (main s) \<Longrightarrow>
   mset (job_ledger M s') = mset (job_ledger M s)"
  by (cases "main s")
     (auto simp: demonstrateWorkerPool_def chan_send_def chan_recv_def chan_close_def
                 job_ledger_def processed_append upto_rec1
           split: if_splits list.splits)

lemma job_ledger_worker:
  "worker i s = Some s' \<Longrightarrow> mset (job_ledger M s') = mset (job_ledger M s)"
  by (cases rule: worker_cases)
     (auto simp: job_ledger_def processed_append)

lemma job_ledger_closer: "closer_step s = Some s' \<Longrightarrow> job_ledger M s' = job_ledger M s"
  by (cases "closer s")
     (auto simp: closer_step_def chan_close_def job_ledger_def split: if_splits)

lemma job_ledger_step:
  "step N M g s = Some s' \<Longrightarrow> pc_ok N M (main s) \<Longrightarrow>
   mset (job_ledger M s') = mset (job_ledger M s)"
  by (cases g) (auto simp: step_def job_ledger_main job_ledger_worker job_ledger_closer split: if_splits)

lemma closer_started_adding [simp]: "closer_started pc \<Longrightarrow> adding pc = 0"
  by (cases pc) simp_all

lemma inv_init: "inv N M (init M)"
  by (simp add: inv_def init_def make_chan_def)

lemma inv_closer:
  "closer_step s = Some s' \<Longrightarrow> inv N M s \<Longrightarrow> inv N M s'"
  by (cases "closer s")
     (auto simp: closer_step_def chan_close_def inv_def split: if_splits)

lemma inv_worker:
  assumes "worker i s = Some s'" and I: "inv N M s"
  shows "inv N M s'"
  using assms(1)
proof (cases rule: worker_cases)
  case (recv pre wid post job rest)
  with I show ?thesis by (clarsimp simp: inv_def)
next
  case (drained pre wid post)
  with I show ?thesis by (clarsimp simp: inv_def)
next
  case (printf pre wid post job)
  with I show ?thesis by (clarsimp simp: inv_def)
next
  case (sleep pre wid post job)
  with I show ?thesis by (clarsimp simp: inv_def)
next
  case (send pre wid post job)
  with I show ?thesis by (clarsimp simp: inv_def)
next
  case (send_panic pre wid post job)
  with I show ?thesis by (clarsimp simp: inv_def)
next
  case (wg_done pre wid post)
  with I show ?thesis by (clarsimp simp: inv_def)
next
  case (wg_panic pre wid post)
  with I show ?thesis by (clarsimp simp: inv_def)
qed

lemma inv_main:
  assumes "demonstrateWorkerPool N M s = Some s'" and I: "inv N M s"
  shows "inv N M s'"
proof (cases "main s")
  case MPrintln
  with assms show ?thesis by (clarsimp simp: demonstrateWorkerPool_def inv_def)
next
  case (MWorkerLoop w)
  with assms show ?thesis
    by (clarsimp simp: demonstrateWorkerPool_def inv_def split: if_splits, arith)
next
  case (MAdd w)
  with assms show ?thesis by (clarsimp simp: demonstrateWorkerPool_def inv_def)
next
  case (MGo w)
  with assms show ?thesis by (clarsimp simp: demonstrateWorkerPool_def inv_def, arith)
next
  case (MJobLoop j)
  with assms show ?thesis by (clarsimp simp: demonstrateWorkerPool_def inv_def split: if_splits)
next
  case (MSend j)
  with assms show ?thesis
    by (clarsimp simp: demonstrateWorkerPool_def inv_def chan_send_def split: if_splits)
next
  case MCloseJobs
  with assms show ?thesis
    by (clarsimp simp: demonstrateWorkerPool_def inv_def chan_close_def split: if_splits)
next
  case MGoCloser
  with assms show ?thesis by (clarsimp simp: demonstrateWorkerPool_def inv_def)
next
  case MRange
  with assms show ?thesis
    by (clarsimp simp: demonstrateWorkerPool_def inv_def chan_recv_def split: if_splits list.splits)
next
  case (MPrintf r)
  with assms show ?thesis by (clarsimp simp: demonstrateWorkerPool_def inv_def)
next
  case MReturn
  with assms show ?thesis by (clarsimp simp: demonstrateWorkerPool_def inv_def)
qed

lemma inv_step: "step N M g s = Some s' \<Longrightarrow> inv N M s \<Longrightarrow> inv N M s'"
  by (cases g) (auto simp: step_def inv_main inv_worker inv_closer split: if_splits)

lemma inv_exec: "exec N M gs s = Some s' \<Longrightarrow> inv N M s \<Longrightarrow> inv N M s'"
proof (induction gs arbitrary: s)
  case Nil
  then show ?case by simp
next
  case (Cons g gs)
  then obtain t where t: "step N M g s = Some t" "exec N M gs t = Some s'"
    by (auto split: option.splits)
  from Cons.IH[OF t(2)] inv_step[OF t(1) Cons.prems(2)] show ?case .
qed

lemma ledger_exec:
  "exec N M gs s = Some s' \<Longrightarrow> pc_ok N M (main s) \<Longrightarrow>
   mset (ledger M s') = mset (ledger M s) \<and> mset (job_ledger M s') = mset (job_ledger M s)"
proof (induction gs arbitrary: s)
  case Nil
  then show ?case by simp
next
  case (Cons g gs)
  then obtain t where t: "step N M g s = Some t" "exec N M gs t = Some s'"
    by (auto split: option.splits)
  from Cons.IH[OF t(2) pc_ok_step[OF t(1) Cons.prems(2)]]
    ledger_step[OF t(1) Cons.prems(2)] job_ledger_step[OF t(1) Cons.prems(2)]
  show ?case by simp
qed

lemma ledger_init: "ledger M (init M) = map double [1..int M]"
  by (simp add: ledger_def init_def make_chan_def)

lemma job_ledger_init: "job_ledger M (init M) = [1..int M]"
  by (simp add: job_ledger_def init_def make_chan_def)

lemma reached_init: "reached N M (init M)"
  by (simp add: reached_def inv_init ledger_init job_ledger_init)

lemma reached_exec:
  assumes "exec N M gs s = Some s'" "reached N M s"
  shows "reached N M s'"
proof -
  from assms(2) have I: "inv N M s" and L: "mset (ledger M s) = mset (map double [1..int M])"
    "mset (job_ledger M s) = mset [1..int M]"
    by (simp_all add: reached_def)
  from I have pc: "pc_ok N M (main s)" by (simp add: inv_def)
  from inv_exec[OF assms(1) I] ledger_exec[OF assms(1) pc] L show ?thesis
    by (simp add: reached_def)
qed

lemma exec_append:
  "exec N M (gs @ hs) s = (case exec N M gs s of None \<Rightarrow> None | Some t \<Rightarrow> exec N M hs t)"
  by (induction gs arbitrary: s) (auto split: option.splits)

lemma live_count_0: "live_count ws = 0 \<Longrightarrow>
   (\<forall>p\<in>set ws. snd p = WExited) \<and> in_flight ws = [] \<and> not_announced ws = []
   \<and> finished_count ws = length ws"
proof (induction ws rule: live_count.induct)
  case 1
  then show ?case by simp
next
  case (2 wid pc ws)
  then show ?case by (cases pc) simp_all
qed

lemma live_worker_split:
  "0 < live_count ws \<Longrightarrow> \<exists>pre wid pc post. ws = pre @ (wid, pc) # post \<and> pc \<noteq> WExited"
proof (induction ws rule: live_count.induct)
  case 1
  then show ?case by simp
next
  case (2 wid pc ws)
  show ?case
  proof (cases "pc = WExited")
    case True
    with 2 obtain pre wid' pc' post where "ws = pre @ (wid', pc') # post" "pc' \<noteq> WExited"
      by auto
    then have "(wid, pc) # ws = ((wid, pc) # pre) @ (wid', pc') # post" by simp
    with \<open>pc' \<noteq> WExited\<close> show ?thesis by blast
  next
    case False
    then have "(wid, pc) # ws = [] @ (wid, pc) # ws" by simp
    with False show ?thesis by blast
  qed
qed

lemma ledger_length: "mset (ledger M s) = mset (map double [1..int M]) \<Longrightarrow> length (ledger M s) = M"
  using mset_eq_length[of "ledger M s" "map double [1..int M]"] by simp

lemma worker_enabled:
  assumes ws: "workers s = pre @ (wid, pc) # post" and pc: "pc \<noteq> WExited"
    and closed: "closed (jobs s)"
    and room: "\<And>job. pc = WSend job \<Longrightarrow> closed (results s) \<or> length (buf (results s)) < cap (results s)"
  shows "\<exists>s'. worker (length pre) s = Some s'"
proof (cases pc)
  case WRange
  with ws closed show ?thesis
    by (simp add: worker_def chan_recv_def split: list.splits)
next
  case (WSend job)
  with ws room[OF WSend] show ?thesis
    by (auto simp: worker_def chan_send_def)
qed (use ws pc in \<open>simp_all add: worker_def\<close>)

lemma main_enabled:
  assumes "failure s = None" "main s \<noteq> MReturn" "main s \<noteq> MRange"
    "\<And>j. main s = MSend j \<Longrightarrow> closed (jobs s) \<or> length (buf (jobs s)) < cap (jobs s)"
  shows "\<exists>s'. step N M Main s = Some s'"
proof (cases "main s")
  case (MSend j)
  with assms(1) assms(4)[OF MSend] show ?thesis
    by (auto simp: step_def demonstrateWorkerPool_def chan_send_def)
next
  case MCloseJobs
  with assms(1) show ?thesis
    by (simp add: step_def demonstrateWorkerPool_def chan_close_def)
qed (use assms in \<open>simp_all add: step_def demonstrateWorkerPool_def\<close>)

lemma progress:
  assumes R: "reached N M s" and nr: "main s \<noteq> MReturn"
  shows "\<exists>g s'. step N M g s = Some s'"
proof -
  from R have I: "inv N M s" and L: "length (ledger M s) = M"
    by (simp_all add: reached_def ledger_length)
  from I have f: "failure s = None" by (simp add: inv_def)
  show ?thesis
  proof (cases "main s = MRange")
    case False
    have room: "closed (jobs s) \<or> length (buf (jobs s)) < cap (jobs s)" if "main s = MSend j" for j
    proof -
      from I that have "j \<le> int M" "cap (jobs s) = M" by (simp_all add: inv_def)
      with L that show ?thesis by (simp add: ledger_def, arith)
    qed
    from room have "\<exists>s'. step N M Main s = Some s'"
      by (intro main_enabled f nr False) 
    then show ?thesis by blast
  next
    case True
    show ?thesis
    proof (cases "buf (results s) = [] \<and> \<not> closed (results s)")
      case False
      with True f have "\<exists>s'. step N M Main s = Some s'"
        by (auto simp: step_def demonstrateWorkerPool_def chan_recv_def split: list.splits)
      then show ?thesis by blast
    next
      case open_empty: True
      with I True have c: "closer s = CWait \<or> closer s = CClose"
        by (cases "closer s") (simp_all add: inv_def)
      show ?thesis
      proof (cases "closer s = CClose \<or> wg s = 0")
        case True
        with c f have "\<exists>s'. step N M Closer s = Some s'"
          by (auto simp: step_def closer_step_def chan_close_def)
        then show ?thesis by blast
      next
        case False
        with I \<open>main s = MRange\<close> have "0 < live_count (workers s)"
          by (simp add: inv_def)
        from live_worker_split[OF this] obtain pre wid pc post
          where ws: "workers s = pre @ (wid, pc) # post" and pc: "pc \<noteq> WExited" by blast
        from I \<open>main s = MRange\<close> have cj: "closed (jobs s)" and cap: "cap (results s) = M"
          by (simp_all add: inv_def)
        have room: "closed (results s) \<or> length (buf (results s)) < cap (results s)" if "pc = WSend job" for job
          using L ws that cap by (simp add: ledger_def)
        from room have "\<exists>s'. worker (length pre) s = Some s'"
          by (intro worker_enabled[OF ws pc cj])
        with f have "\<exists>s'. step N M (Worker (length pre)) s = Some s'"
          by (simp add: step_def)
        then show ?thesis by blast
      qed
    qed
  qed
qed

lemma rank_init: "rank N M (init M) = 9 + 5 * nat N + 8 * M"
  by (simp add: rank_def init_def make_chan_def)

lemma completion:
  "reached N M s \<Longrightarrow> \<exists>gs s'. exec N M gs s = Some s' \<and> main s' = MReturn"
proof (induction "rank N M s" arbitrary: s rule: less_induct)
  case less
  show ?case
  proof (cases "main s = MReturn")
    case True
    then have "exec N M [] s = Some s \<and> main s = MReturn" by simp
    then show ?thesis by blast
  next
    case False
    from progress[OF less.prems False] obtain g t where t: "step N M g s = Some t" by blast
    then have "exec N M [g] s = Some t" by simp
    from reached_exec[OF this less.prems] have Rt: "reached N M t" .
    from less.hyps[OF rank_step[OF t] Rt] obtain gs s' where
      "exec N M gs t = Some s'" "main s' = MReturn" by blast
    with t have "exec N M (g # gs) s = Some s' \<and> main s' = MReturn" by simp
    then show ?thesis by blast
  qed
qed

lemma reached_run: "exec N M gs (init M) = Some s \<Longrightarrow> reached N M s"
  using reached_exec[OF _ reached_init] .

lemma final_state:
  assumes R: "reached N M s" and ret: "main s = MReturn"
  shows "closed (results s) \<and> buf (results s) = [] \<and> closer s = CExited \<and> wg s = 0
         \<and> length (workers s) = nat N \<and> live_count (workers s) = 0"
  using assms by (clarsimp simp: reached_def inv_def)

lemma final_ledger:
  assumes R: "reached N M s" and ret: "main s = MReturn" and N: "1 \<le> N"
  shows "ledger M s = collected (stdout s) \<and> job_ledger M s = map snd (processed (stdout s))"
proof -
  from final_state[OF R ret] have fs: "buf (results s) = []" "length (workers s) = nat N"
    "live_count (workers s) = 0" by simp_all
  from live_count_0[OF fs(3)] have ws: "in_flight (workers s) = []" "not_announced (workers s) = []"
    "finished_count (workers s) = length (workers s)" by simp_all
  from ws(3) fs(2) N have "0 < finished_count (workers s)" by simp
  with R have "buf (jobs s) = []" by (simp add: reached_def inv_def)
  with fs ws ret show ?thesis by (simp add: ledger_def job_ledger_def)
qed

lemma spawned_le: "pc_ok N M pc \<Longrightarrow> spawned N pc \<le> nat N"
  by (cases pc) auto

lemma single_worker_cases:
  assumes "worker i s = Some s'" "length (workers s') \<le> 1"
  shows "ledger M s' = ledger M s \<and> job_ledger M s' = job_ledger M s"
  using assms
  by (cases rule: worker_cases)
     (auto simp: ledger_def job_ledger_def collected_append processed_append double_def)

lemma ordered_main:
  assumes "demonstrateWorkerPool N M s = Some s'" "pc_ok N M (main s)" "length (workers s') \<le> 1"
  shows "ledger M s' = ledger M s \<and> job_ledger M s' = job_ledger M s"
proof (cases "main s")
  case (MSend j)
  with assms show ?thesis
    by (auto simp: demonstrateWorkerPool_def chan_send_def ledger_def job_ledger_def upto_rec1
             split: if_splits)
next
  case (MJobLoop j)
  with assms show ?thesis
    by (auto simp: demonstrateWorkerPool_def ledger_def job_ledger_def split: if_splits)
next
  case (MWorkerLoop w)
  with assms show ?thesis
    by (auto simp: demonstrateWorkerPool_def ledger_def job_ledger_def split: if_splits)
next
  case MRange
  with assms show ?thesis
    by (auto simp: demonstrateWorkerPool_def chan_recv_def ledger_def job_ledger_def
             split: if_splits list.splits)
next
  case MCloseJobs
  with assms show ?thesis
    by (auto simp: demonstrateWorkerPool_def chan_close_def ledger_def job_ledger_def
             split: if_splits)
qed (use assms in \<open>auto simp: demonstrateWorkerPool_def ledger_def job_ledger_def
       collected_append processed_append\<close>)

lemma ordered_step:
  assumes "step N M g s = Some s'" "pc_ok N M (main s)" "length (workers s') \<le> 1"
  shows "ledger M s' = ledger M s \<and> job_ledger M s' = job_ledger M s"
proof (cases g)
  case Main
  with assms ordered_main[of N M s s'] show ?thesis by (simp add: step_def split: if_splits)
next
  case (Worker i)
  with assms single_worker_cases[of i s s' M] show ?thesis by (simp add: step_def split: if_splits)
next
  case Closer
  with assms ledger_closer[of s s' M] job_ledger_closer[of s s' M] show ?thesis
    by (simp add: step_def split: if_splits)
qed

lemma ordered_exec:
  assumes "exec N M gs s = Some s'" "inv N M s" "N \<le> 1"
  shows "ledger M s' = ledger M s \<and> job_ledger M s' = job_ledger M s"
  using assms
proof (induction gs arbitrary: s)
  case Nil
  then show ?case by simp
next
  case (Cons g gs)
  then obtain t where t: "step N M g s = Some t" "exec N M gs t = Some s'"
    by (auto split: option.splits)
  from inv_step[OF t(1) Cons.prems(2)] have It: "inv N M t" .
  then have "length (workers t) \<le> nat N" using spawned_le[of N M "main t"]
    by (simp add: inv_def)
  with Cons.prems(3) have "length (workers t) \<le> 1" by simp
  moreover from Cons.prems(2) have "pc_ok N M (main s)" by (simp add: inv_def)
  ultimately have "ledger M t = ledger M s \<and> job_ledger M t = job_ledger M s"
    using ordered_step[OF t(1)] by simp
  with Cons.IH[OF t(2) It Cons.prems(3)] show ?case by simp
qed

lemma double_demo: "map double [1..int 9] = [2, 4, 6, 8, 10, 12, 14, 16, 18]"
  by code_simp

lemma run_bound:
  assumes "exec N M gs (init M) = Some s"
  shows "length gs \<le> 8 + 5 * nat N + 8 * M"
proof -
  from assms have "reached N M s" by (rule reached_run)
  then have "failure s = None" by (simp add: reached_def inv_def)
  then have "1 \<le> rank N M s" by (simp add: rank_def)
  with rank_exec[OF assms] show ?thesis by (simp add: rank_init)
qed

lemma run_completion:
  assumes R: "reached N M s"
  shows "\<exists>gs' s'. exec N M gs' s = Some s' \<and> reached N M s' \<and> main s' = MReturn
            \<and> closed (results s') \<and> buf (results s') = [] \<and> wg s' = 0
            \<and> length (workers s') = nat N \<and> (\<forall>p\<in>set (workers s'). snd p = WExited)"
proof -
  from completion[OF R] obtain gs' s' where run: "exec N M gs' s = Some s'" "main s' = MReturn"
    by blast
  from reached_exec[OF run(1) R] have R': "reached N M s'" .
  from final_state[OF R' run(2)] live_count_0[of "workers s'"]
  have "closed (results s') \<and> buf (results s') = [] \<and> wg s' = 0
        \<and> length (workers s') = nat N \<and> (\<forall>p\<in>set (workers s'). snd p = WExited)"
    by simp
  with run R' show ?thesis by blast
qed

lemma empty_ledger:
  assumes "reached N 0 s"
  shows "collected (stdout s) = [] \<and> processed (stdout s) = [] \<and> in_flight (workers s) = []
         \<and> buf (results s) = [] \<and> buf (jobs s) = []"
proof -
  from assms have "mset (ledger 0 s) = {#}" "mset (job_ledger 0 s) = {#}"
    by (simp_all add: reached_def)
  then have "ledger 0 s = []" "job_ledger 0 s = []" by simp_all
  then show ?thesis by (simp add: ledger_def job_ledger_def)
qed

lemma demo_run: "exec 3 9 demo_schedule (init 9) = Some demo_final"
  by code_simp

lemma demo_returns: "main demo_final = MReturn"
  by code_simp

lemma single_worker_run: "exec 1 5 single_worker_schedule (init 5) = Some single_worker_final"
  by code_simp

lemma single_worker_returns: "main single_worker_final = MReturn"
  by code_simp

lemma empty_batch_run: "exec 2 0 empty_batch_schedule (init 0) = Some empty_batch_final"
  by code_simp

lemma no_worker_run: "exec 0 1 no_worker_schedule (init 1) = Some no_worker_final"
  by code_simp

subsection \<open>Zero and NaN\<close>

lemma f64_zero_not_nan: "\<not> f64_is_nan 0"
  by (simp add: f64_is_nan_def f64_exponent_def)

lemma f64_zero_is_zero: "f64_is_zero 0"
  by (simp add: f64_is_zero_def f64_exponent_def f64_fraction_def)

lemma f64_is_zero_not_nan: "f64_is_zero b \<Longrightarrow> \<not> f64_is_nan b"
  by (simp add: f64_is_zero_def f64_is_nan_def)

lemma f64_eq_zero: "f64_eq b 0 = f64_is_zero b"
  using f64_zero_not_nan f64_zero_is_zero f64_is_zero_not_nan[of b]
  by (auto simp: f64_eq_def)

lemma f64_is_zero_bits: "f64_is_zero b = (b = 0 \<or> b = 0x8000000000000000)"
proof
  assume z: "f64_is_zero b"
  have ub: "unat b < 2 ^ 64" using unsigned_less[of b] by simp
  from z have e: "(unat b div 2 ^ 52) mod 2048 = 0" and f: "unat b mod 2 ^ 52 = 0"
    by (simp_all add: f64_is_zero_def f64_exponent_def f64_fraction_def unat_drop_bit_eq drop_bit_eq_div unat_div)
  from f obtain k where k: "unat b = 2 ^ 52 * k" by (auto simp: mod_eq_0_iff_dvd)
  with e have "k mod 2048 = 0" by simp
  then obtain m where m: "k = 2048 * m" by (auto simp: mod_eq_0_iff_dvd)
  with k have u: "unat b = 2 ^ 63 * m" by simp
  with ub have "m < 2" by simp
  then have "m = 0 \<or> m = 1" by arith
  with u have "unat b = 0 \<or> unat b = 2 ^ 63" by auto
  then have "unat b = unat (0 :: 64 word) \<or> unat b = unat (0x8000000000000000 :: 64 word)"
    by simp
  then show "b = 0 \<or> b = 0x8000000000000000"
    by (simp only: word_unat_eq_iff)
next
  assume "b = 0 \<or> b = 0x8000000000000000"
  then show "f64_is_zero b"
    by (auto simp: f64_is_zero_def f64_exponent_def f64_fraction_def unat_drop_bit_eq drop_bit_eq_div unat_div)
qed

subsection \<open>After the close of the job channel\<close>

lemma after_close_unsent: "after_close pc \<Longrightarrow> unsent M pc = []"
  by (cases pc) simp_all

lemma closer_started_spawned: "closer_started pc \<Longrightarrow> spawned N pc = nat N"
  by (cases pc) simp_all

subsection \<open>Pools without workers, and stopped workers\<close>

lemma quiet_main:
  assumes "demonstrateWorkerPool N M s = Some s'" "N \<le> 0" "pc_ok N M (main s)" "quiet s"
  shows "quiet s'"
  using assms
  by (cases "main s")
     (auto simp: demonstrateWorkerPool_def chan_send_def chan_recv_def chan_close_def
                 quiet_def collected_append processed_append
           split: if_splits)

lemma quiet_step:
  assumes "step N M g s = Some s'" "N \<le> 0" "pc_ok N M (main s)" "quiet s"
  shows "quiet s'"
proof (cases g)
  case Main
  with assms quiet_main[of N M s s'] show ?thesis by (simp add: step_def split: if_splits)
next
  case (Worker i)
  with assms show ?thesis by (simp add: step_def worker_def quiet_def split: if_splits)
next
  case Closer
  with assms show ?thesis
    by (cases "closer s")
       (auto simp: step_def closer_step_def chan_close_def quiet_def split: if_splits)
qed

lemma quiet_exec:
  assumes "exec N M gs s = Some s'" "N \<le> 0" "pc_ok N M (main s)" "quiet s"
  shows "quiet s'"
  using assms
proof (induction gs arbitrary: s)
  case Nil
  then show ?case by simp
next
  case (Cons g gs)
  then obtain t where t: "step N M g s = Some t" "exec N M gs t = Some s'"
    by (auto split: option.splits)
  from Cons.IH[OF t(2) Cons.prems(2) pc_ok_step[OF t(1) Cons.prems(3)]
      quiet_step[OF t(1) Cons.prems(2,3,4)]]
  show ?case .
qed

lemma quiet_init: "quiet (init M)"
  by (simp add: quiet_def init_def make_chan_def)



subsection \<open>Traces\<close>

lemma claims_append [simp]: "claims (xs @ ys) = claims xs @ claims ys"
  by (induction xs rule: claims.induct) simp_all

lemma publishers_append [simp]: "publishers (xs @ ys) = publishers xs @ publishers ys"
  by (induction xs rule: publishers.induct) simp_all

lemma stream_append [simp]: "stream (xs @ ys) = stream xs @ stream ys"
  by (induction xs rule: stream.induct) simp_all

lemma closes_append [simp]: "closes (xs @ ys) = closes xs + closes ys"
  by (induction xs rule: closes.induct) simp_all

lemma holding_append [simp]: "holding (xs @ ys) = holding xs @ holding ys"
  by (induction xs rule: holding.induct) simp_all

lemma flows_worker:
  assumes "worker i s = Some s'"
  shows "flows M (observe (Worker i) s s') s s'"
  using assms
  by (cases rule: worker_cases)
     (auto simp: flows_def observe_def delivered_def waiting_def collected_append)

lemma flows_main:
  assumes "demonstrateWorkerPool N M s = Some s'" "inv N M s"
  shows "flows M (observe Main s s') s s'"
proof (cases "main s")
  case (MSend j)
  with assms show ?thesis
    by (auto simp: demonstrateWorkerPool_def chan_send_def flows_def observe_def delivered_def
                   waiting_def inv_def upto_rec1 split: if_splits)
next
  case MRange
  with assms show ?thesis
    by (auto simp: demonstrateWorkerPool_def chan_recv_def flows_def observe_def delivered_def
                   waiting_def split: if_splits list.splits)
next
  case MGoCloser
  with assms show ?thesis
    by (auto simp: demonstrateWorkerPool_def flows_def observe_def delivered_def
                   waiting_def inv_def)
next
  case MCloseJobs
  with assms show ?thesis
    by (auto simp: demonstrateWorkerPool_def chan_close_def flows_def observe_def delivered_def
                   waiting_def split: if_splits)
qed (use assms in \<open>auto simp: demonstrateWorkerPool_def flows_def observe_def delivered_def
       waiting_def collected_append split: if_splits\<close>)

lemma flows_closer:
  assumes "closer_step s = Some s'" "inv N M s"
  shows "flows M (observe Closer s s') s s'"
  using assms
  by (cases "closer s")
     (auto simp: closer_step_def chan_close_def flows_def observe_def delivered_def
                 waiting_def inv_def split: if_splits)

lemma flows_step:
  assumes "step N M g s = Some s'" "inv N M s"
  shows "flows M (observe g s s') s s'"
proof (cases g)
  case Main
  with assms flows_main[of N M s s'] show ?thesis by (simp add: step_def split: if_splits)
next
  case (Worker i)
  with assms flows_worker[of i s s' M] show ?thesis by (simp add: step_def split: if_splits)
next
  case Closer
  with assms flows_closer[of s s' N M] show ?thesis by (simp add: step_def split: if_splits)
qed

lemma flows_refl: "flows M [] s s"
  by (simp add: flows_def)

lemma flows_trans:
  assumes "flows M tr s t" "flows M tr' t u"
  shows "flows M (tr @ tr') s u"
proof -
  from assms have
    a: "mset (claims tr) + mset (holding (workers s)) = mset (publishers tr) + mset (holding (workers t))"
       "mset (claims tr') + mset (holding (workers t)) = mset (publishers tr') + mset (holding (workers u))"
    and b: "mset (map snd (claims tr)) + mset (waiting M t) = mset (waiting M s)"
       "mset (map snd (claims tr')) + mset (waiting M u) = mset (waiting M t)"
    and c: "delivered t = delivered s @ stream tr" "delivered u = delivered t @ stream tr'"
    and d: "stream tr = map (\<lambda>(wid, job). go_int (job * 2)) (publishers tr)"
       "stream tr' = map (\<lambda>(wid, job). go_int (job * 2)) (publishers tr')"
    and e: "closes tr + (if closer s = CExited then 1 else 0) = (if closer t = CExited then 1 else 0)"
       "closes tr' + (if closer t = CExited then 1 else 0) = (if closer u = CExited then 1 else 0)"
    by (simp_all add: flows_def)
  from a have "mset (claims tr) + mset (claims tr') + mset (holding (workers s))
     = mset (publishers tr) + mset (publishers tr') + mset (holding (workers u))"
    by (metis (no_types, lifting) add.assoc add.commute)
  moreover from b have "mset (map snd (claims tr)) + mset (map snd (claims tr')) + mset (waiting M u)
     = mset (waiting M s)"
    by (metis add.assoc)
  moreover from e have "closes tr + closes tr' + (if closer s = CExited then 1 else 0)
     = (if closer u = CExited then 1 else 0)"
    by (auto split: if_splits)
  ultimately show ?thesis using c d by (simp add: flows_def)
qed

lemma flows_exec:
  "exec N M gs s = Some s' \<Longrightarrow> inv N M s \<Longrightarrow> flows M (trace N M gs s) s s'"
proof (induction gs arbitrary: s)
  case Nil
  then show ?case by (simp add: flows_refl)
next
  case (Cons g gs)
  then obtain t where t: "step N M g s = Some t" "exec N M gs t = Some s'"
    by (auto split: option.splits)
  from flows_trans[OF flows_step[OF t(1) Cons.prems(2)] Cons.IH[OF t(2) inv_step[OF t(1) Cons.prems(2)]]]
    t(1) show ?case by simp
qed

lemma live_count_0_holding: "live_count ws = 0 \<Longrightarrow> holding ws = []"
proof (induction ws rule: live_count.induct)
  case 1
  then show ?case by simp
next
  case (2 wid pc ws)
  then show ?case by (cases pc) simp_all
qed

lemma run_flows:
  assumes "exec N M gs (init M) = Some s"
  shows "mset (claims (trace N M gs (init M)))
           = mset (publishers (trace N M gs (init M))) + mset (holding (workers s))"
    and "mset (map snd (claims (trace N M gs (init M)))) + mset (waiting M s) = mset [1..int M]"
    and "delivered s = stream (trace N M gs (init M))"
    and "stream (trace N M gs (init M))
           = map (\<lambda>(wid, job). go_int (job * 2)) (publishers (trace N M gs (init M)))"
    and "closes (trace N M gs (init M)) = (if closed (results s) then 1 else 0)"
proof -
  let ?tr = "trace N M gs (init M)"
  from flows_exec[OF assms inv_init] have f: "flows M ?tr (init M) s" .
  have i: "holding (workers (init M)) = []" "waiting M (init M) = [1..int M]"
    "delivered (init M) = []" "closer (init M) = CNotStarted"
    by (simp_all add: init_def waiting_def delivered_def make_chan_def)
  from reached_run[OF assms] have c: "closed (results s) = (closer s = CExited)"
    by (simp add: reached_def inv_def)
  from f have "mset (claims ?tr) + mset (holding (workers (init M)))
      = mset (publishers ?tr) + mset (holding (workers s))"
    unfolding flows_def by blast
  then show "mset (claims ?tr) = mset (publishers ?tr) + mset (holding (workers s))"
    by (simp only: i mset.simps add_0_right)
  from f have "mset (map snd (claims ?tr)) + mset (waiting M s) = mset (waiting M (init M))"
    unfolding flows_def by blast
  then show "mset (map snd (claims ?tr)) + mset (waiting M s) = mset [1..int M]"
    by (simp only: i)
  from f have "delivered s = delivered (init M) @ stream ?tr"
    unfolding flows_def by blast
  then show "delivered s = stream ?tr" by (simp only: i append_Nil)
  from f show "stream ?tr = map (\<lambda>(wid, job). go_int (job * 2)) (publishers ?tr)"
    unfolding flows_def by blast
  from f have "closes ?tr + (if closer (init M) = CExited then 1 else 0)
      = (if closer s = CExited then 1 else 0)"
    unfolding flows_def by blast
  with i(4) c show "closes ?tr = (if closed (results s) then 1 else 0)" by simp
qed

lemma continue_run:
  assumes "exec N M gs (init M) = Some s"
  shows "\<exists>gs' s'. exec N M gs' s = Some s' \<and> exec N M (gs @ gs') (init M) = Some s'
           \<and> main s' = MReturn"
proof -
  from completion[OF reached_run[OF assms]] obtain gs' s' where
    "exec N M gs' s = Some s'" "main s' = MReturn" by blast
  with assms have "exec N M gs' s = Some s' \<and> exec N M (gs @ gs') (init M) = Some s'
           \<and> main s' = MReturn" by (simp add: exec_append)
  then show ?thesis by blast
qed

lemma stream_of_jobs:
  assumes "stream tr = map (\<lambda>(wid, job). go_int (job * 2)) (publishers tr)"
    and "mset (map snd (publishers tr)) = mset js"
  shows "mset (stream tr) = mset (map (\<lambda>job. go_int (job * 2)) js)"
proof -
  have "map (\<lambda>(wid, job). go_int (job * 2)) P = map (\<lambda>job. go_int (job * 2)) (map snd P)"
    for P :: "(int \<times> int) list"
    by (induction P) auto
  with assms(1) have "stream tr = map (\<lambda>job. go_int (job * 2)) (map snd (publishers tr))"
    by (simp only:)
  then have "mset (stream tr)
      = image_mset (\<lambda>job. go_int (job * 2)) (mset (map snd (publishers tr)))"
    by (simp only: mset_map)
  with assms(2) show ?thesis by (simp only: mset_map)
qed

lemma returned_run:
  assumes run: "exec N M gs (init M) = Some s" and ret: "main s = MReturn" and N: "1 \<le> N"
  shows "closed (results s) \<and> buf (results s) = []"
    and "mset (publishers (trace N M gs (init M))) = mset (claims (trace N M gs (init M)))"
    and "mset (map snd (claims (trace N M gs (init M)))) = mset [1..int M]"
    and "mset (map snd (publishers (trace N M gs (init M)))) = mset [1..int M]"
    and "stream (trace N M gs (init M)) = collected (stdout s)"
    and "mset (collected (stdout s)) = mset (map (\<lambda>job. go_int (job * 2)) [1..int M])"
    and "length (collected (stdout s)) = M"
    and "closes (trace N M gs (init M)) = 1"
proof -
  let ?tr = "trace N M gs (init M)"
  from run have R: "reached N M s" by (rule reached_run)
  from final_state[OF R ret] have fs: "closed (results s)" "buf (results s) = []"
    "live_count (workers s) = 0" "length (workers s) = nat N" by simp_all
  from fs show "closed (results s) \<and> buf (results s) = []" by simp
  from live_count_0_holding[OF fs(3)] have h: "holding (workers s) = []" .
  from live_count_0[OF fs(3)] have "finished_count (workers s) = length (workers s)" by simp
  with fs(4) N have "0 < finished_count (workers s)" by simp
  with R have "buf (jobs s) = []" by (simp add: reached_def inv_def)
  with ret have w: "waiting M s = []" by (simp add: waiting_def)
  from run_flows(1)[OF run] h show pc: "mset (publishers ?tr) = mset (claims ?tr)" by simp
  from run_flows(2)[OF run] w show cj: "mset (map snd (claims ?tr)) = mset [1..int M]" by simp
  from pc have "mset (map snd (publishers ?tr)) = mset (map snd (claims ?tr))"
    by (metis mset_map)
  with cj show pj: "mset (map snd (publishers ?tr)) = mset [1..int M]" by simp
  from run_flows(3)[OF run] fs(2) ret show st: "stream ?tr = collected (stdout s)"
    by (simp add: delivered_def)
  from stream_of_jobs[OF run_flows(4)[OF run] pj] st
  show m: "mset (collected (stdout s)) = mset (map (\<lambda>job. go_int (job * 2)) [1..int M])"
    by simp
  from mset_eq_length[OF m] show "length (collected (stdout s)) = M" by simp
  from run_flows(5)[OF run] fs(1) show "closes ?tr = 1" by simp
qed

lemma claims_distinct:
  assumes "exec N M gs (init M) = Some s"
  shows "distinct (map snd (claims (trace N M gs (init M))) @ buf (jobs s))"
proof -
  from run_flows(2)[OF assms]
  have "mset (map snd (claims (trace N M gs (init M))) @ waiting M s) = mset [1..int M]"
    by simp
  from mset_eq_imp_distinct_iff[OF this]
  have "distinct (map snd (claims (trace N M gs (init M))) @ waiting M s)" by simp
  then show ?thesis by (auto simp: waiting_def)
qed


lemma closing_state:
  assumes R: "reached N M s" and c: "closer s = CClose \<or> closed (results s)"
  shows "length (workers s) = nat N \<and> live_count (workers s) = 0 \<and> wg s = 0
         \<and> closed (jobs s) \<and> unsent M (main s) = []"
proof -
  from R c have I: "live_count (workers s) = 0" "closer_started (main s)"
    "length (workers s) = spawned N (main s)" "wg s = int (live_count (workers s) + adding (main s))"
    "closed (jobs s) = after_close (main s)"
    by (auto simp: reached_def inv_def)
  from I(2) have "after_close (main s)" by (cases "main s") simp_all
  with I after_close_unsent[of "main s" M] closer_started_spawned[of "main s" N]
  show ?thesis by simp
qed

lemma no_worker_facts:
  assumes run: "exec N M gs (init M) = Some s" and N: "N \<le> 0"
  shows "workers s = [] \<and> collected (stdout s) = [] \<and> processed (stdout s) = []
         \<and> buf (results s) = [] \<and> claims (trace N M gs (init M)) = []
         \<and> buf (jobs s) @ unsent M (main s) = [1..int M]"
proof -
  have "quiet s"
    using quiet_exec[OF run N _ quiet_init] by (simp add: init_def)
  then have q: "workers s = []" "collected (stdout s) = []" "processed (stdout s) = []"
    "buf (results s) = []" by (simp_all add: quiet_def)
  from N have "N \<le> 1" by simp
  from ordered_exec[OF run inv_init this] have "job_ledger M s = [1..int M]"
    by (simp add: job_ledger_init)
  with q have w: "buf (jobs s) @ unsent M (main s) = [1..int M]" by (simp add: job_ledger_def)
  with run_flows(2)[OF run] have "claims (trace N M gs (init M)) = []"
    by (simp add: waiting_def)
  with q w show ?thesis by simp
qed

lemma double_map: "map double xs = map (\<lambda>job. go_int (job * 2)) xs"
  by (simp add: double_def)

lemma single_worker_ledger:
  assumes "exec 1 M gs (init M) = Some s"
  shows "delivered s @ map double (in_flight (workers s) @ buf (jobs s) @ unsent M (main s))
         = sequential_results [1..int M]"
proof -
  from ordered_exec[OF assms inv_init] have "ledger M s = map double [1..int M]"
    by (simp add: ledger_init)
  then show ?thesis
    by (simp add: ledger_def delivered_def sequential_results_def double_map)
qed

lemma take_prefix: "xs @ ys = zs \<Longrightarrow> xs = take (length xs) zs"
  by auto

lemma published_jobs:
  assumes "exec N M gs (init M) = Some s"
  shows "distinct (map snd (publishers (trace N M gs (init M))))"
    and "set (map snd (publishers (trace N M gs (init M)))) \<subseteq> {1..int M}"
proof -
  let ?tr = "trace N M gs (init M)"
  from run_flows(1)[OF assms]
  have "mset (claims ?tr) = mset (publishers ?tr @ holding (workers s))" by simp
  then have e: "mset (map snd (claims ?tr)) = mset (map snd (publishers ?tr @ holding (workers s)))"
    by (metis mset_map)
  from claims_distinct[OF assms] have "distinct (map snd (claims ?tr))" by simp
  with mset_eq_imp_distinct_iff[OF e] show "distinct (map snd (publishers ?tr))" by simp
  from run_flows(2)[OF assms]
  have "mset (map snd (claims ?tr) @ waiting M s) = mset [1..int M]" by simp
  from mset_eq_setD[OF this] have "set (map snd (claims ?tr)) \<subseteq> {1..int M}" by auto
  with mset_eq_setD[OF e] show "set (map snd (publishers ?tr)) \<subseteq> {1..int M}" by auto
qed

lemma go_int_small: "1 \<le> job \<Longrightarrow> job \<le> 9 \<Longrightarrow> go_int (job * 2) = 2 * job"
  by (simp add: go_int_def)

lemma demo_trace:
  "trace 3 9 demo_schedule (init 9)
   = [Claim 1 1, Claim 2 2, Publish 2 2 4, Claim 3 3, Publish 3 3 6, Publish 1 1 2,
      Claim 3 4, Publish 3 4 8, Claim 3 5, Publish 3 5 10, Claim 2 6, Publish 2 6 12,
      Claim 1 7, Publish 1 7 14, Claim 2 8, Publish 2 8 16, Claim 3 9, Publish 3 9 18,
      CloseResults]"
  by code_simp

section \<open>The claims\<close>

text \<open>
  C1.  With at least one worker, every run of the pool produces exactly \<open>numJobs\<close>
  results.  A run has at most \<open>8 + 5 * numWorkers + 8 * numJobs\<close> steps, and from every
  state it reaches it can be continued to the return of \<open>demonstrateWorkerPool\<close>; at the
  return (of this continuation and of any run) the result stream has ended (\<open>results\<close>
  is closed and drained), the values published on it are the results the consumer has
  collected, one publication for each of the jobs \<open>1 .. numJobs\<close>, and the collected
  results are \<open>numJobs\<close> in number: as a multiset, \<open>job * 2\<close> for the jobs
  \<open>1 .. numJobs\<close>, none missing and none twice.
\<close>

theorem pool_completeness:
  assumes "1 \<le> N" and "exec N M gs (init M) = Some s"
  shows "length gs \<le> 8 + 5 * nat N + 8 * M
         \<and> (\<exists>gs' s'. exec N M gs' s = Some s' \<and> main s' = MReturn
            \<and> closed (results s') \<and> buf (results s') = []
            \<and> stream (trace N M (gs @ gs') (init M)) = collected (stdout s')
            \<and> mset (map snd (publishers (trace N M (gs @ gs') (init M)))) = mset [1..int M]
            \<and> length (collected (stdout s')) = M
            \<and> mset (collected (stdout s')) = mset (map (\<lambda>job. go_int (job * 2)) [1..int M]))
         \<and> (main s = MReturn \<longrightarrow>
               closed (results s) \<and> buf (results s) = []
               \<and> stream (trace N M gs (init M)) = collected (stdout s)
               \<and> mset (map snd (publishers (trace N M gs (init M)))) = mset [1..int M]
               \<and> length (collected (stdout s)) = M
               \<and> mset (collected (stdout s)) = mset (map (\<lambda>job. go_int (job * 2)) [1..int M]))"
proof -
  from continue_run[OF assms(2)] obtain gs' s' where
    c: "exec N M gs' s = Some s'" "exec N M (gs @ gs') (init M) = Some s'" "main s' = MReturn"
    by blast
  note r = returned_run[OF c(2) c(3) assms(1)]
  from c(1) c(3) r(1) r(5) r(4) r(7) r(6)
  have live: "\<exists>gs' s'. exec N M gs' s = Some s' \<and> main s' = MReturn
            \<and> closed (results s') \<and> buf (results s') = []
            \<and> stream (trace N M (gs @ gs') (init M)) = collected (stdout s')
            \<and> mset (map snd (publishers (trace N M (gs @ gs') (init M)))) = mset [1..int M]
            \<and> length (collected (stdout s')) = M
            \<and> mset (collected (stdout s')) = mset (map (\<lambda>job. go_int (job * 2)) [1..int M])"
    by blast
  have "closed (results s) \<and> buf (results s) = []
               \<and> stream (trace N M gs (init M)) = collected (stdout s)
               \<and> mset (map snd (publishers (trace N M gs (init M)))) = mset [1..int M]
               \<and> length (collected (stdout s)) = M
               \<and> mset (collected (stdout s)) = mset (map (\<lambda>job. go_int (job * 2)) [1..int M])"
    if "main s = MReturn"
    using returned_run[OF assms(2) that assms(1)] by simp
  with live run_bound[OF assms(2)] show ?thesis by blast
qed

theorem pool_completeness_witness:
  "(1::int) \<le> 3 \<and> exec 3 9 demo_schedule (init 9) = Some demo_final \<and>
   main demo_final = MReturn \<and>
   (\<exists>gs' s'. exec 3 9 gs' demo_final = Some s' \<and> main s' = MReturn
      \<and> closed (results s') \<and> buf (results s') = []
      \<and> stream (trace 3 9 (demo_schedule @ gs') (init 9)) = collected (stdout s')
      \<and> mset (map snd (publishers (trace 3 9 (demo_schedule @ gs') (init 9)))) = mset [1..int 9]
      \<and> length (collected (stdout s')) = 9
      \<and> mset (collected (stdout s')) = mset (map (\<lambda>job. go_int (job * 2)) [1..int 9])) \<and>
   closed (results demo_final) \<and> buf (results demo_final) = [] \<and>
   stream (trace 3 9 demo_schedule (init 9)) = collected (stdout demo_final) \<and>
   mset (map snd (publishers (trace 3 9 demo_schedule (init 9)))) = mset [1..int 9] \<and>
   length (collected (stdout demo_final)) = 9 \<and>
   mset (collected (stdout demo_final)) = mset (map (\<lambda>job. go_int (job * 2)) [1..int 9]) \<and>
   collected (stdout demo_final) = [4, 6, 2, 8, 10, 12, 14, 16, 18]"
proof -
  have N: "(1::int) \<le> 3" by simp
  have order: "collected (stdout demo_final) = [4, 6, 2, 8, 10, 12, 14, 16, 18]"
    by code_simp
  from pool_completeness[OF N demo_run] N demo_run demo_returns order
  show ?thesis by blast
qed



text \<open>
  C3.  In every run no goroutine panics, and \<open>close(results)\<close> has been executed once
  if \<open>results\<close> is closed now and never otherwise.  Whenever the anonymous goroutine is
  about to close \<open>results\<close>, or has closed it, all \<open>numWorkers\<close> workers have been
  started and have exited after their \<open>wg.Done()\<close>, none holds a job, the \<open>WaitGroup\<close>
  counter is zero and, with at least one worker, the values published so far are the
  results of all \<open>numJobs\<close> jobs.  A run has at most
  \<open>8 + 5 * numWorkers + 8 * numJobs\<close> steps and can always be continued to the return of
  \<open>demonstrateWorkerPool\<close>, where \<open>results\<close> is closed and \<open>close(results)\<close> has been
  executed exactly once in the whole run.
\<close>

theorem end_of_data_once:
  assumes "exec N M gs (init M) = Some s"
  shows "length gs \<le> 8 + 5 * nat N + 8 * M
         \<and> failure s = None
         \<and> closes (trace N M gs (init M)) = (if closed (results s) then 1 else 0)
         \<and> (closer s = CClose \<or> closed (results s) \<longrightarrow>
               length (workers s) = nat N \<and> (\<forall>p\<in>set (workers s). snd p = WExited)
               \<and> in_flight (workers s) = [] \<and> holding (workers s) = [] \<and> wg s = 0
               \<and> (1 \<le> N \<longrightarrow>
                     mset (stream (trace N M gs (init M))) = mset (sequential_results [1..int M])))
         \<and> (\<exists>gs' s'. exec N M gs' s = Some s' \<and> main s' = MReturn \<and> closed (results s')
               \<and> closes (trace N M (gs @ gs') (init M)) = 1)"
proof -
  let ?tr = "trace N M gs (init M)"
  from assms have R: "reached N M s" by (rule reached_run)
  then have f: "failure s = None" by (simp add: reached_def inv_def)
  note ev = run_flows(5)[OF assms]
  have ex: "length (workers s) = nat N \<and> (\<forall>p\<in>set (workers s). snd p = WExited)
            \<and> in_flight (workers s) = [] \<and> holding (workers s) = [] \<and> wg s = 0
            \<and> (1 \<le> N \<longrightarrow> mset (stream ?tr) = mset (sequential_results [1..int M]))"
    if c: "closer s = CClose \<or> closed (results s)"
  proof -
    from closing_state[OF R c] have cs: "length (workers s) = nat N" "live_count (workers s) = 0"
      "wg s = 0" "unsent M (main s) = []" by simp_all
    from live_count_0[OF cs(2)] have ws: "\<forall>p\<in>set (workers s). snd p = WExited"
      "in_flight (workers s) = []" "finished_count (workers s) = length (workers s)" by simp_all
    from live_count_0_holding[OF cs(2)] have h: "holding (workers s) = []" .
    have "mset (stream ?tr) = mset (sequential_results [1..int M])" if N: "1 \<le> N"
    proof -
      from ws(3) cs(1) N have "0 < finished_count (workers s)" by simp
      with R have "buf (jobs s) = []" by (simp add: reached_def inv_def)
      with cs(4) have w: "waiting M s = []" by (simp add: waiting_def)
      from run_flows(1)[OF assms] h have "mset (publishers ?tr) = mset (claims ?tr)" by simp
      then have "mset (map snd (publishers ?tr)) = mset (map snd (claims ?tr))"
        by (metis mset_map)
      with run_flows(2)[OF assms] w have "mset (map snd (publishers ?tr)) = mset [1..int M]"
        by simp
      from stream_of_jobs[OF run_flows(4)[OF assms] this] show ?thesis
        by (simp add: sequential_results_def)
    qed
    with cs ws h show ?thesis by simp
  qed
  from continue_run[OF assms] obtain gs' s' where
    c: "exec N M gs' s = Some s'" "exec N M (gs @ gs') (init M) = Some s'" "main s' = MReturn"
    by blast
  from final_state[OF reached_run[OF c(2)] c(3)] have cl: "closed (results s')" by simp
  with run_flows(5)[OF c(2)] have "closes (trace N M (gs @ gs') (init M)) = 1" by simp
  with c cl have live: "\<exists>gs' s'. exec N M gs' s = Some s' \<and> main s' = MReturn \<and> closed (results s')
               \<and> closes (trace N M (gs @ gs') (init M)) = 1" by blast
  from f ev ex live run_bound[OF assms] show ?thesis by blast
qed

theorem end_of_data_once_witness:
  "exec 3 9 demo_schedule (init 9) = Some demo_final \<and> closed (results demo_final) \<and>
   (1::int) \<le> 3 \<and> failure demo_final = None \<and>
   closes (trace 3 9 demo_schedule (init 9)) = 1 \<and>
   length (workers demo_final) = nat 3 \<and>
   in_flight (workers demo_final) = [] \<and> holding (workers demo_final) = [] \<and>
   wg demo_final = 0 \<and>
   mset (stream (trace 3 9 demo_schedule (init 9))) = mset (sequential_results [1..int 9]) \<and>
   (\<exists>gs' s'. exec 3 9 gs' demo_final = Some s' \<and> main s' = MReturn \<and> closed (results s')
      \<and> closes (trace 3 9 (demo_schedule @ gs') (init 9)) = 1)"
proof -
  have c: "closed (results demo_final)" by code_simp
  have N: "(1::int) \<le> 3" by simp
  from end_of_data_once[OF demo_run] c N demo_run show ?thesis by simp
qed

text \<open>
  C4.  Every run of the pool is finite and none gets stuck: a run from the initial state
  has at most \<open>8 + 5 * numWorkers + 8 * numJobs\<close> steps, whatever the scheduler picks, and
  from every state it reaches the run can be continued to the return of
  \<open>demonstrateWorkerPool\<close>, where \<open>results\<close> is closed and drained (the consumer's
  \<open>range\<close> loop has ended), the \<open>WaitGroup\<close> counter is zero and all \<open>numWorkers\<close>
  workers have exited.  A state other than the return therefore always has a goroutine
  that can move.  This holds for every worker count and batch size.
\<close>

theorem pool_terminates:
  assumes "exec N M gs (init M) = Some s"
  shows "length gs \<le> 8 + 5 * nat N + 8 * M \<and>
         (\<exists>gs' s'. exec N M gs' s = Some s' \<and> main s' = MReturn
            \<and> closed (results s') \<and> buf (results s') = [] \<and> wg s' = 0
            \<and> length (workers s') = nat N \<and> (\<forall>p\<in>set (workers s'). snd p = WExited))"
proof -
  from assms have "reached N M s" by (rule reached_run)
  from run_completion[OF this] run_bound[OF assms] show ?thesis by blast
qed

theorem pool_terminates_witness:
  "exec 3 9 (take 40 demo_schedule) (init 9) \<noteq> None \<and>
   length (take 40 demo_schedule) \<le> 8 + 5 * nat 3 + 8 * 9 \<and>
   (\<exists>gs' s'. exec 3 9 gs' (the (exec 3 9 (take 40 demo_schedule) (init 9))) = Some s'
      \<and> main s' = MReturn \<and> closed (results s') \<and> buf (results s') = [] \<and> wg s' = 0
      \<and> length (workers s') = nat 3 \<and> (\<forall>p\<in>set (workers s'). snd p = WExited))"
proof -
  have run: "exec 3 9 (take 40 demo_schedule) (init 9)
             = Some (the (exec 3 9 (take 40 demo_schedule) (init 9)))"
    by code_simp
  have ne: "exec 3 9 (take 40 demo_schedule) (init 9) \<noteq> None"
    by code_simp
  from pool_terminates[OF run] ne show ?thesis by blast
qed

text \<open>
  C5, as the code has it.  The pool checks no configuration and has no
  \<open>InvalidConfiguration\<close> error: for every worker count, positive or not, no run
  fails, every run has at most \<open>8 + 5 * numWorkers + 8 * numJobs\<close> steps and can always
  be continued to the return of \<open>demonstrateWorkerPool\<close> without a failure and with
  \<open>results\<close> closed.  With \<open>numWorkers \<le> 0\<close> no worker is ever started and nothing is
  claimed, processed or published, and at the return (of this continuation and of any
  run) \<open>results\<close> is closed and all the jobs \<open>1 .. numJobs\<close> are still queued in
  \<open>jobs\<close>.
\<close>

theorem no_worker_count_check:
  assumes "exec N M gs (init M) = Some s"
  shows "length gs \<le> 8 + 5 * nat N + 8 * M
         \<and> failure s = None
         \<and> (\<exists>gs' s'. exec N M gs' s = Some s' \<and> main s' = MReturn \<and> failure s' = None
               \<and> closed (results s')
               \<and> (N \<le> 0 \<longrightarrow> workers s' = [] \<and> collected (stdout s') = []
                     \<and> processed (stdout s') = [] \<and> buf (jobs s') = [1..int M]))
         \<and> (N \<le> 0 \<longrightarrow>
               workers s = [] \<and> collected (stdout s) = [] \<and> processed (stdout s) = []
               \<and> buf (results s) = [] \<and> claims (trace N M gs (init M)) = []
               \<and> (main s = MReturn \<longrightarrow> closed (results s) \<and> buf (jobs s) = [1..int M]))"
proof -
  from assms have R: "reached N M s" by (rule reached_run)
  then have f: "failure s = None" by (simp add: reached_def inv_def)
  from continue_run[OF assms] obtain gs' s' where
    c: "exec N M gs' s = Some s'" "exec N M (gs @ gs') (init M) = Some s'" "main s' = MReturn"
    by blast
  from reached_run[OF c(2)] have R': "reached N M s'" .
  then have f': "failure s' = None" by (simp add: reached_def inv_def)
  from final_state[OF R' c(3)] have cl: "closed (results s')" by simp
  have "workers s' = [] \<and> collected (stdout s') = [] \<and> processed (stdout s') = []
        \<and> buf (jobs s') = [1..int M]" if "N \<le> 0"
    using no_worker_facts[OF c(2) that] c(3) by simp
  with c f' cl have live: "\<exists>gs' s'. exec N M gs' s = Some s' \<and> main s' = MReturn \<and> failure s' = None
               \<and> closed (results s')
               \<and> (N \<le> 0 \<longrightarrow> workers s' = [] \<and> collected (stdout s') = []
                     \<and> processed (stdout s') = [] \<and> buf (jobs s') = [1..int M])"
    by blast
  have "workers s = [] \<and> collected (stdout s) = [] \<and> processed (stdout s) = []
        \<and> buf (results s) = [] \<and> claims (trace N M gs (init M)) = []
        \<and> (main s = MReturn \<longrightarrow> closed (results s) \<and> buf (jobs s) = [1..int M])" if N: "N \<le> 0"
  proof -
    have "closed (results s) \<and> buf (jobs s) = [1..int M]" if ret: "main s = MReturn"
      using no_worker_facts[OF assms N] final_state[OF R ret] ret by simp
    with no_worker_facts[OF assms N] show ?thesis by simp
  qed
  with f live run_bound[OF assms] show ?thesis by blast
qed

theorem no_worker_count_check_witness:
  "exec 0 1 no_worker_schedule (init 1) = Some no_worker_final \<and> (0::int) \<le> 0 \<and>
   main no_worker_final = MReturn \<and> failure no_worker_final = None \<and>
   workers no_worker_final = [] \<and> collected (stdout no_worker_final) = [] \<and>
   processed (stdout no_worker_final) = [] \<and> buf (results no_worker_final) = [] \<and>
   claims (trace 0 1 no_worker_schedule (init 1)) = [] \<and>
   closed (results no_worker_final) \<and> buf (jobs no_worker_final) = [1..int 1] \<and>
   (\<exists>gs' s'. exec 0 1 gs' no_worker_final = Some s' \<and> main s' = MReturn \<and> failure s' = None
      \<and> closed (results s') \<and> workers s' = [] \<and> collected (stdout s') = []
      \<and> processed (stdout s') = [] \<and> buf (jobs s') = [1..int 1])"
proof -
  have ret: "main no_worker_final = MReturn" by code_simp
  have N: "(0::int) \<le> 0" by simp
  from no_worker_count_check[OF no_worker_run] ret N no_worker_run show ?thesis by simp
qed

text \<open>
  C5 as stated fails: the complete run with no worker and one job ends with the return
  of \<open>demonstrateWorkerPool\<close> and without any failure, having printed the header only
  and left job 1 in the queue.
\<close>

theorem invalid_configuration_counterexample:
  "exec 0 1 no_worker_schedule (init 1) = Some no_worker_final \<and>
   main no_worker_final = MReturn \<and> failure no_worker_final = None \<and>
   stdout no_worker_final = [Header] \<and> buf (jobs no_worker_final) = [1]"
  by code_simp

text \<open>
  C6.  With an empty batch and at least one worker, nothing is ever processed or
  published: at every moment of every run no result has been collected, no job has been
  announced or claimed and \<open>results\<close> is empty.  The run has at most
  \<open>8 + 5 * numWorkers\<close> steps and can always be continued to the return of
  \<open>demonstrateWorkerPool\<close>, where \<open>results\<close> is closed (the end-of-data signal has
  fired) and all \<open>numWorkers\<close> workers have exited, still with nothing processed.
\<close>

theorem empty_batch:
  assumes "1 \<le> N" and "exec N 0 gs (init 0) = Some s"
  shows "collected (stdout s) = [] \<and> processed (stdout s) = [] \<and> in_flight (workers s) = []
         \<and> buf (results s) = [] \<and> length gs \<le> 8 + 5 * nat N
         \<and> (\<exists>gs' s'. exec N 0 gs' s = Some s' \<and> main s' = MReturn \<and> closed (results s')
               \<and> length (workers s') = nat N \<and> (\<forall>p\<in>set (workers s'). snd p = WExited)
               \<and> collected (stdout s') = [] \<and> processed (stdout s') = [])"
proof -
  from assms(2) have R: "reached N 0 s" by (rule reached_run)
  from run_completion[OF R] obtain gs' s' where
    run: "exec N 0 gs' s = Some s'" "reached N 0 s'" "main s' = MReturn" "closed (results s')"
      "length (workers s') = nat N" "\<forall>p\<in>set (workers s'). snd p = WExited"
    by blast
  from empty_ledger[OF run(2)] run
  have "\<exists>gs' s'. exec N 0 gs' s = Some s' \<and> main s' = MReturn \<and> closed (results s')
               \<and> length (workers s') = nat N \<and> (\<forall>p\<in>set (workers s'). snd p = WExited)
               \<and> collected (stdout s') = [] \<and> processed (stdout s') = []"
    by blast
  with empty_ledger[OF R] run_bound[OF assms(2)] show ?thesis by simp
qed

theorem empty_batch_witness:
  "(1::int) \<le> 2 \<and> exec 2 0 empty_batch_schedule (init 0) = Some empty_batch_final \<and>
   collected (stdout empty_batch_final) = [] \<and> processed (stdout empty_batch_final) = [] \<and>
   in_flight (workers empty_batch_final) = [] \<and> buf (results empty_batch_final) = [] \<and>
   length empty_batch_schedule \<le> 8 + 5 * nat 2 \<and>
   (\<exists>gs' s'. exec 2 0 gs' empty_batch_final = Some s' \<and> main s' = MReturn \<and> closed (results s')
       \<and> length (workers s') = nat 2 \<and> (\<forall>p\<in>set (workers s'). snd p = WExited)
       \<and> collected (stdout s') = [] \<and> processed (stdout s') = [])"
proof -
  have N: "(1::int) \<le> 2" by simp
  from empty_batch[OF N empty_batch_run] N empty_batch_run show ?thesis by blast
qed

text \<open>
  C7.  With exactly one worker the pool computes what the sequential map over the batch
  computes, in the same order: at every moment of every run the values published so far
  and the results collected so far are initial segments of
  \<open>sequential_results [1 .. numJobs]\<close>.  A run has at most \<open>8 + 5 + 8 * numJobs\<close> steps
  and can always be continued to the return of \<open>demonstrateWorkerPool\<close>; at the return
  (of this continuation and of any run) the stream and the collected results are that
  whole list, \<open>numJobs\<close> results.
\<close>

theorem single_worker_sequential:
  assumes "exec 1 M gs (init M) = Some s"
  shows "length gs \<le> 8 + 5 * nat 1 + 8 * M
         \<and> collected (stdout s) = take (length (collected (stdout s))) (sequential_results [1..int M])
         \<and> stream (trace 1 M gs (init M))
             = take (length (stream (trace 1 M gs (init M)))) (sequential_results [1..int M])
         \<and> (main s = MReturn \<longrightarrow>
               collected (stdout s) = sequential_results [1..int M]
               \<and> stream (trace 1 M gs (init M)) = sequential_results [1..int M]
               \<and> length (collected (stdout s)) = M)
         \<and> (\<exists>gs' s'. exec 1 M gs' s = Some s' \<and> main s' = MReturn
               \<and> collected (stdout s') = sequential_results [1..int M]
               \<and> stream (trace 1 M (gs @ gs') (init M)) = sequential_results [1..int M]
               \<and> length (collected (stdout s')) = M)"
proof -
  have ret: "collected (stdout t) = sequential_results [1..int M]
             \<and> stream (trace 1 M hs (init M)) = sequential_results [1..int M]
             \<and> length (collected (stdout t)) = M"
    if run: "exec 1 M hs (init M) = Some t" and r: "main t = MReturn" for hs t
  proof -
    have N: "(1::int) \<le> 1" by simp
    from final_ledger[OF reached_run[OF run] r N] have "ledger M t = collected (stdout t)"
      by simp
    moreover from ordered_exec[OF run inv_init] have "ledger M t = map double [1..int M]"
      by (simp add: ledger_init)
    ultimately have c: "collected (stdout t) = sequential_results [1..int M]"
      by (simp add: sequential_results_def double_map)
    from returned_run(5)[OF run r N] returned_run(7)[OF run r N] c show ?thesis by simp
  qed
  from single_worker_ledger[OF assms]
  have "collected (stdout s) @ (held (main s) @ buf (results s)
          @ map double (in_flight (workers s) @ buf (jobs s) @ unsent M (main s)))
        = sequential_results [1..int M]"
    by (simp add: delivered_def)
  from take_prefix[OF this]
  have p1: "collected (stdout s) = take (length (collected (stdout s))) (sequential_results [1..int M])" .
  from single_worker_ledger[OF assms] run_flows(3)[OF assms]
  have "stream (trace 1 M gs (init M))
          @ map double (in_flight (workers s) @ buf (jobs s) @ unsent M (main s))
        = sequential_results [1..int M]"
    by simp
  from take_prefix[OF this]
  have p2: "stream (trace 1 M gs (init M))
             = take (length (stream (trace 1 M gs (init M)))) (sequential_results [1..int M])" .
  from continue_run[OF assms] obtain gs' s' where
    c: "exec 1 M gs' s = Some s'" "exec 1 M (gs @ gs') (init M) = Some s'" "main s' = MReturn"
    by blast
  from ret[OF c(2) c(3)] c(1) c(3)
  have live: "\<exists>gs' s'. exec 1 M gs' s = Some s' \<and> main s' = MReturn
               \<and> collected (stdout s') = sequential_results [1..int M]
               \<and> stream (trace 1 M (gs @ gs') (init M)) = sequential_results [1..int M]
               \<and> length (collected (stdout s')) = M"
    by blast
  from p1 p2 ret[OF assms] live run_bound[OF assms] show ?thesis by blast
qed

theorem single_worker_sequential_witness:
  "exec 1 5 single_worker_schedule (init 5) = Some single_worker_final \<and>
   main single_worker_final = MReturn \<and>
   collected (stdout single_worker_final)
     = take (length (collected (stdout single_worker_final))) (sequential_results [1..int 5]) \<and>
   collected (stdout single_worker_final) = sequential_results [1..int 5] \<and>
   stream (trace 1 5 single_worker_schedule (init 5)) = sequential_results [1..int 5] \<and>
   length (collected (stdout single_worker_final)) = 5 \<and>
   (\<exists>gs' s'. exec 1 5 gs' single_worker_final = Some s' \<and> main s' = MReturn
      \<and> collected (stdout s') = sequential_results [1..int 5]
      \<and> stream (trace 1 5 (single_worker_schedule @ gs') (init 5)) = sequential_results [1..int 5]
      \<and> length (collected (stdout s')) = 5)"
proof -
  from single_worker_sequential[OF single_worker_run] single_worker_run single_worker_returns
  show ?thesis by blast
qed




text \<open>
  C9.  \<open>divide\<close> returns a non-nil error exactly when the divisor is a zero (\<open>+0\<close> or
  \<open>-0\<close>, the bit patterns \<open>0\<close> and \<open>0x8000000000000000\<close>); it then returns the value 0
  and the error \<open>division by zero\<close>, and otherwise the quotient and a nil error (also
  for a NaN divisor).  The function is total: it has no other outcome.
\<close>

theorem divide_error_iff_zero_divisor:
  "(snd (divide fdiv a b) \<noteq> None) = f64_is_zero b
   \<and> divide fdiv a b
       = (if f64_is_zero b then (0, Some ''division by zero'') else (fdiv a b, None))
   \<and> f64_is_zero b = (b = 0 \<or> b = 0x8000000000000000)"
  using f64_is_zero_bits[of b] by (simp add: divide_def f64_eq_zero)

theorem divide_error_iff_zero_divisor_witness:
  "divide (\<lambda>x y. 0x4014000000000000) 0x4024000000000000 0 = (0, Some ''division by zero'') \<and>
   divide (\<lambda>x y. 0x4014000000000000) 0x4024000000000000 0x4000000000000000
     = (0x4014000000000000, None)"
  using divide_error_iff_zero_divisor[of "\<lambda>x y. 0x4014000000000000" "0x4024000000000000" 0]
    divide_error_iff_zero_divisor[of "\<lambda>x y. 0x4014000000000000" "0x4024000000000000"
      "0x4000000000000000"]
  by simp

text \<open>
  C10.  In the pool as the source configures it (three workers, jobs 1 to 9), at every
  moment of every run each value published on \<open>results\<close> is exactly twice the job its
  worker claimed, no job is published twice, the values published are the ones
  collected, held by the consumer or queued, and they are a sub-multiset of
  \<open>{2, 4, ..., 18}\<close>.  A run has at most 95 steps and can always be continued to the
  return of \<open>demonstrateWorkerPool\<close>; at the return (of this continuation and of any
  run) the collected results are exactly the multiset
  \<open>{2, 4, 6, 8, 10, 12, 14, 16, 18}\<close>.
\<close>

theorem demo_results:
  assumes "exec 3 9 gs (init 9) = Some s"
  shows "length gs \<le> 8 + 5 * nat 3 + 8 * 9
         \<and> stream (trace 3 9 gs (init 9))
           = map (\<lambda>(wid, job). 2 * job) (publishers (trace 3 9 gs (init 9)))
         \<and> distinct (map snd (publishers (trace 3 9 gs (init 9))))
         \<and> collected (stdout s) @ held (main s) @ buf (results s) = stream (trace 3 9 gs (init 9))
         \<and> mset (stream (trace 3 9 gs (init 9))) \<subseteq># {#2, 4, 6, 8, 10, 12, 14, 16, 18#}
         \<and> (main s = MReturn \<longrightarrow> mset (collected (stdout s)) = {#2, 4, 6, 8, 10, 12, 14, 16, 18#})
         \<and> (\<exists>gs' s'. exec 3 9 gs' s = Some s' \<and> main s' = MReturn
               \<and> stream (trace 3 9 (gs @ gs') (init 9)) = collected (stdout s')
               \<and> mset (collected (stdout s')) = {#2, 4, 6, 8, 10, 12, 14, 16, 18#})"
proof -
  let ?tr = "trace 3 9 gs (init 9)"
  have N: "(1::int) \<le> 3" by simp
  from published_jobs(2)[OF assms] have "\<forall>p\<in>set (publishers ?tr). 1 \<le> snd p \<and> snd p \<le> 9"
    by auto
  then have "map (\<lambda>(wid, job). go_int (job * 2)) (publishers ?tr)
             = map (\<lambda>(wid, job). 2 * job) (publishers ?tr)"
    by (intro map_cong) (auto simp: go_int_small)
  with run_flows(4)[OF assms]
  have twice: "stream ?tr = map (\<lambda>(wid, job). 2 * job) (publishers ?tr)" by simp
  from run_flows(3)[OF assms]
  have del: "collected (stdout s) @ held (main s) @ buf (results s) = stream ?tr"
    by (simp add: delivered_def)
  from assms have R: "reached 3 9 s" by (rule reached_run)
  then have "mset (ledger 9 s) = mset (map double [1..int 9])"
    by (simp only: reached_def)
  then have m: "mset (ledger 9 s) = mset [2, 4, 6, 8, 10, 12, 14, 16, 18]"
    by (simp only: double_demo)
  have "mset (collected (stdout s) @ held (main s) @ buf (results s)) \<subseteq># mset (ledger 9 s)"
    by (simp add: ledger_def)
  with m del have sub: "mset (stream ?tr) \<subseteq># {#2, 4, 6, 8, 10, 12, 14, 16, 18#}" by simp
  have fin: "mset (collected (stdout t)) = {#2, 4, 6, 8, 10, 12, 14, 16, 18#}"
    if run: "exec 3 9 hs (init 9) = Some t" and r: "main t = MReturn" for hs t
  proof -
    from returned_run(6)[OF run r N]
    have "mset (collected (stdout t)) = mset (map double [1..int 9])"
      by (simp only: double_map)
    then show ?thesis by (simp only: double_demo) simp
  qed
  from continue_run[OF assms] obtain gs' s' where
    c: "exec 3 9 gs' s = Some s'" "exec 3 9 (gs @ gs') (init 9) = Some s'" "main s' = MReturn"
    by blast
  from fin[OF c(2) c(3)] returned_run(5)[OF c(2) c(3) N] c(1) c(3)
  have live: "\<exists>gs' s'. exec 3 9 gs' s = Some s' \<and> main s' = MReturn
               \<and> stream (trace 3 9 (gs @ gs') (init 9)) = collected (stdout s')
               \<and> mset (collected (stdout s')) = {#2, 4, 6, 8, 10, 12, 14, 16, 18#}"
    by blast
  from twice published_jobs(1)[OF assms] del sub fin[OF assms] live run_bound[OF assms]
  show ?thesis by blast
qed

theorem demo_results_witness:
  "exec 3 9 demo_schedule (init 9) = Some demo_final \<and> main demo_final = MReturn \<and>
   stream (trace 3 9 demo_schedule (init 9))
     = map (\<lambda>(wid, job). 2 * job) (publishers (trace 3 9 demo_schedule (init 9))) \<and>
   distinct (map snd (publishers (trace 3 9 demo_schedule (init 9)))) \<and>
   mset (stream (trace 3 9 demo_schedule (init 9))) \<subseteq># {#2, 4, 6, 8, 10, 12, 14, 16, 18#} \<and>
   mset (collected (stdout demo_final)) = {#2, 4, 6, 8, 10, 12, 14, 16, 18#} \<and>
   stream (trace 3 9 demo_schedule (init 9)) = [4, 6, 2, 8, 10, 12, 14, 16, 18] \<and>
   (\<exists>gs' s'. exec 3 9 gs' demo_final = Some s' \<and> main s' = MReturn
      \<and> stream (trace 3 9 (demo_schedule @ gs') (init 9)) = collected (stdout s')
      \<and> mset (collected (stdout s')) = {#2, 4, 6, 8, 10, 12, 14, 16, 18#})"
proof -
  have order: "stream (trace 3 9 demo_schedule (init 9)) = [4, 6, 2, 8, 10, 12, 14, 16, 18]"
    by (simp add: demo_trace)
  from demo_results[OF demo_run] demo_run demo_returns order show ?thesis by blast
qed

end
